theory Spec2Isabelle
  imports Main
begin

unbundle bit_operations_syntax

section \<open>Protocol definitions\<close>

text \<open>
  The link layer of \<^verbatim>\<open>simple485_remastered_micro.py\<close>.  Python integers are \<^typ>\<open>int\<close>,
  a \<^verbatim>\<open>bytes\<close> object is an \<^typ>\<open>int list\<close> whose elements lie in \<open>0..255\<close>, and
  \<^verbatim>\<open>bytes([x])\<close> raises \<^verbatim>\<open>ValueError\<close> for any other \<open>x\<close>.  Python's \<^verbatim>\<open>~\<close>, \<^verbatim>\<open>&\<close>,
  \<^verbatim>\<open>|\<close>, \<^verbatim>\<open>^\<close>, \<^verbatim>\<open><<\<close>, \<^verbatim>\<open>>>\<close> on unbounded integers are \<open>NOT\<close>, \<open>AND\<close>, \<open>OR\<close>,
  \<open>XOR\<close>, \<open>push_bit\<close>, \<open>drop_bit\<close> on \<^typ>\<open>int\<close>.
\<close>

definition MAX_MESSAGE_LEN :: int where "MAX_MESSAGE_LEN = 255"
definition LINE_READY_TIME_MS :: int where "LINE_READY_TIME_MS = 10"
definition BITS_PER_BYTE :: int where "BITS_PER_BYTE = 10"
definition PACKET_TIMEOUT_MS :: int where "PACKET_TIMEOUT_MS = 500"
definition FIRST_NODE_ADDRESS :: int where "FIRST_NODE_ADDRESS = 0"
definition MASTER_ADDRESS :: int where "MASTER_ADDRESS = FIRST_NODE_ADDRESS"
definition BROADCAST_ADDRESS :: int where "BROADCAST_ADDRESS = 255"
definition LAST_NODE_ADDRESS :: int where "LAST_NODE_ADDRESS = BROADCAST_ADDRESS - 1"

text \<open>Class \<^verbatim>\<open>ControlSequence\<close>: one-byte markers, given by their byte value.\<close>

definition SOH :: int where "SOH = 1"
definition STX :: int where "STX = 2"
definition ETX :: int where "ETX = 3"
definition EOT :: int where "EOT = 4"
definition LF :: int where "LF = 10"
definition NULL :: int where "NULL = 0"

datatype ReceiverState =
  IDLE | SOH_RECEIVED | DEST_ADDRESS_RECEIVED | SRC_ADDRESS_RECEIVED
  | TRANSACTION_ID_RECEIVED | MESSAGE_LEN_RECEIVED | STX_RECEIVED | ETX_RECEIVED | CRC_OK

definition is_valid_node_address :: "int \<Rightarrow> bool" where
  "is_valid_node_address a \<longleftrightarrow> FIRST_NODE_ADDRESS \<le> a \<and> a \<le> LAST_NODE_ADDRESS"

definition is_valid_slave_address :: "int \<Rightarrow> bool" where
  "is_valid_slave_address a \<longleftrightarrow> is_valid_node_address a \<and> a \<noteq> MASTER_ADDRESS"

text \<open>The exceptions the code raises or catches.\<close>

datatype exn = ValueError | AttributeError | TypeError | OSError | ZeroDivisionError | OtherException

text \<open>
  \<^verbatim>\<open>utime.ticks_diff\<close> belongs to MicroPython, not to this repository: the signed difference
  of two tick values modulo the tick period (\<open>2 ^ 30\<close> on the reference ports).
\<close>

definition TICKS_PERIOD :: int where "TICKS_PERIOD = 2 ^ 30"

definition ticks_diff :: "int \<Rightarrow> int \<Rightarrow> int" where
  "ticks_diff t1 t2 =
     ((t1 - t2 + TICKS_PERIOD div 2) mod TICKS_PERIOD) - TICKS_PERIOD div 2"

section \<open>Model classes\<close>

text \<open>
  \<^verbatim>\<open>ReceivingMessage\<close>: the fields that \<^verbatim>\<open>__init__\<close> sets to \<^verbatim>\<open>None\<close> are options.  The
  field \<^verbatim>\<open>length\<close> is named \<open>length_rx\<close> here, and the fields of \<^verbatim>\<open>ReceivedMessage\<close> that
  share a name with it carry the suffix \<open>_m\<close>.
\<close>

record ReceivingMessage =
  timestamp :: int
  dst_address :: "int option"
  src_address :: "int option"
  transaction_id :: "int option"
  length_rx :: "int option"
  crc :: "int option"
  is_first_nibble :: bool
  incoming :: int
  payload_buffer :: "int list"

definition new_ReceivingMessage :: "int \<Rightarrow> ReceivingMessage" where
  "new_ReceivingMessage ts =
     \<lparr> timestamp = ts, dst_address = None, src_address = None, transaction_id = None,
       length_rx = None, crc = None, is_first_nibble = True, incoming = 0,
       payload_buffer = [] \<rparr>"

text \<open>
  \<^verbatim>\<open>ReceivedMessage\<close>; the back reference \<^verbatim>\<open>_originating_bus\<close> is always the engine that
  built the message, and \<open>respond\<close> below takes that engine as an argument.
\<close>

record ReceivedMessage =
  src_address_m :: "int option"
  dest_address :: "int option"
  transaction_id_m :: "int option"
  length_m :: "int option"
  payload_m :: "int list"

definition is_broadcast :: "ReceivedMessage \<Rightarrow> bool" where
  "is_broadcast m \<longleftrightarrow> dest_address m = Some BROADCAST_ADDRESS"

section \<open>The bus engine\<close>

text \<open>The attributes of \<^verbatim>\<open>Simple485Remastered\<close>, without the leading underscore.\<close>

record engine =
  interface_baudrate :: int
  address :: int
  transceiver_toggle_time_ms :: int
  last_bus_activity :: int
  receiver_state :: ReceiverState
  receiving_message :: "ReceivingMessage option"
  received_messages :: "ReceivedMessage list"
  output_messages :: "int list list"

text \<open>\<^verbatim>\<open>__init__\<close>; \<open>now\<close> is the value \<^verbatim>\<open>get_milliseconds()\<close> returns.\<close>

definition new_engine :: "int \<Rightarrow> int \<Rightarrow> int \<Rightarrow> int \<Rightarrow> exn + engine" where
  "new_engine baudrate addr toggle_ms now =
     (if \<not> is_valid_node_address addr then Inl ValueError
      else if toggle_ms \<le> 0 then Inl ValueError
      else Inr \<lparr> interface_baudrate = baudrate, address = addr,
                 transceiver_toggle_time_ms = toggle_ms, last_bus_activity = now,
                 receiver_state = IDLE, receiving_message = None,
                 received_messages = [], output_messages = [] \<rparr>)"

definition get_last_bus_activity :: "engine \<Rightarrow> int" where
  "get_last_bus_activity s = last_bus_activity s"

definition get_address :: "engine \<Rightarrow> int" where
  "get_address s = address s"

definition set_address :: "engine \<Rightarrow> int \<Rightarrow> exn + engine" where
  "set_address s a =
     (if \<not> is_valid_node_address a then Inl ValueError else Inr (s\<lparr>address := a\<rparr>))"

definition pending_send :: "engine \<Rightarrow> bool" where
  "pending_send s \<longleftrightarrow> length (output_messages s) > 0"

definition available :: "engine \<Rightarrow> nat" where
  "available s = length (received_messages s)"

text \<open>\<^verbatim>\<open>read\<close>: \<^verbatim>\<open>pop(0)\<close> of the inbound list.\<close>

definition read :: "engine \<Rightarrow> exn + ReceivedMessage \<times> engine" where
  "read s =
     (case received_messages s of
        [] \<Rightarrow> Inl ValueError
      | m # ms \<Rightarrow> Inr (m, s\<lparr>received_messages := ms\<rparr>))"

subsection \<open>Encoding: \<^verbatim>\<open>send_message\<close>\<close>

text \<open>\<^verbatim>\<open>bytes([x])\<close>.\<close>

definition bytes1 :: "int \<Rightarrow> exn + int list" where
  "bytes1 x = (if 0 \<le> x \<and> x < 256 then Inr [x] else Inl ValueError)"

text \<open>The two wire bytes the loop body of \<^verbatim>\<open>send_message\<close> computes for a payload byte.\<close>

definition enc_hi :: "int \<Rightarrow> int" where
  "enc_hi p = (let byte = p AND 240 in byte OR (NOT (drop_bit 4 byte) AND 15))"

definition enc_lo :: "int \<Rightarrow> int" where
  "enc_lo p = (let byte = p AND 15 in byte OR (push_bit 4 (NOT byte) AND 240))"

text \<open>
  The \<^verbatim>\<open>for\<close> loop of \<^verbatim>\<open>send_message\<close> over the payload, threading \<^verbatim>\<open>crc\<close> and
  \<^verbatim>\<open>text_buffer\<close>.  Both wire bytes are in \<open>0..255\<close> whatever \<open>p\<close> is (lemmas
  \<open>enc_hi_range\<close>, \<open>enc_lo_range\<close>), so \<^verbatim>\<open>bytes([byte])\<close> cannot raise inside the loop.
\<close>

fun encode_loop :: "int list \<Rightarrow> int \<Rightarrow> int list \<Rightarrow> int \<times> int list" where
  "encode_loop [] crc_acc text_buffer = (crc_acc, text_buffer)"
| "encode_loop (p # ps) crc_acc text_buffer =
     encode_loop ps (crc_acc XOR p) (text_buffer @ [enc_hi p] @ [enc_lo p])"

definition send_message :: "engine \<Rightarrow> int \<Rightarrow> int list \<Rightarrow> int \<Rightarrow> exn + bool \<times> engine" where
  "send_message s dst payload tid =
     (let message_len = int (length payload) in
      if message_len = 0 then Inl ValueError
      else if message_len > MAX_MESSAGE_LEN then Inl ValueError
      else
       (case bytes1 dst of Inl e \<Rightarrow> Inl e | Inr b_dst \<Rightarrow>
       (case bytes1 (address s) of Inl e \<Rightarrow> Inl e | Inr b_src \<Rightarrow>
       (case bytes1 tid of Inl e \<Rightarrow> Inl e | Inr b_tid \<Rightarrow>
       (case bytes1 message_len of Inl e \<Rightarrow> Inl e | Inr b_len \<Rightarrow>
          (let text_buffer = replicate 3 LF @ [SOH] @ b_dst @ b_src @ b_tid @ b_len @ [STX];
               crc0 = address s XOR dst XOR message_len;
               (crc_acc, text_buffer) = encode_loop payload crc0 text_buffer
           in (case bytes1 crc_acc of Inl e \<Rightarrow> Inl e | Inr b_crc \<Rightarrow>
                 Inr (True, s\<lparr>output_messages :=
                        output_messages s
                          @ [text_buffer @ [ETX] @ b_crc @ [EOT] @ replicate 2 LF]\<rparr>))))))))"

text \<open>\<^verbatim>\<open>ReceivedMessage.respond\<close>, with the originating engine passed in.\<close>

definition respond :: "ReceivedMessage \<Rightarrow> engine \<Rightarrow> int list \<Rightarrow> bool \<Rightarrow> exn + bool \<times> engine" where
  "respond m bus message allow_broadcast =
     (if is_broadcast m \<and> \<not> allow_broadcast then Inl ValueError
      else case src_address_m m of None \<Rightarrow> Inl TypeError
           | Some src \<Rightarrow> (case transaction_id_m m of None \<Rightarrow> Inl TypeError
                           | Some tid \<Rightarrow> send_message bus src message tid))"

subsection \<open>Decoding: \<^verbatim>\<open>_process_byte\<close>\<close>

definition is_valid_encoded_byte :: "int \<Rightarrow> bool" where
  "is_valid_encoded_byte b \<longleftrightarrow>
     (NOT ((push_bit 4 b AND 240) OR (drop_bit 4 b AND 15))) AND 255 = b"

text \<open>The two assignments that end every dropped or finished reception.\<close>

definition reset_receiver :: "engine \<Rightarrow> engine" where
  "reset_receiver s = s\<lparr>receiver_state := IDLE, receiving_message := None\<rparr>"

text \<open>
  \<^verbatim>\<open>_process_byte\<close>: \<open>byte\<close> is the value of the one-byte \<^verbatim>\<open>bytes\<close> object, \<open>now\<close> what
  \<^verbatim>\<open>get_milliseconds()\<close> returns should the byte open a reception.  An attribute access on a
  missing reception is \<^verbatim>\<open>AttributeError\<close>, arithmetic on a field that is still \<^verbatim>\<open>None\<close> is
  \<^verbatim>\<open>TypeError\<close>; a comparison with \<^verbatim>\<open>None\<close> is just false.
\<close>

definition process_byte :: "int \<Rightarrow> int \<Rightarrow> engine \<Rightarrow> exn + engine" where
  "process_byte now byte s =
     (case receiver_state s of
        IDLE \<Rightarrow>
          if byte = SOH
          then Inr (s\<lparr>receiver_state := SOH_RECEIVED,
                      receiving_message := Some (new_ReceivingMessage now)\<rparr>)
          else Inr s
      | SOH_RECEIVED \<Rightarrow>
          (case receiving_message s of None \<Rightarrow> Inl AttributeError
           | Some r \<Rightarrow>
               if byte \<noteq> address s \<and> byte \<noteq> BROADCAST_ADDRESS
               then Inr (reset_receiver s)
               else Inr (s\<lparr>receiving_message := Some (r\<lparr>dst_address := Some byte\<rparr>),
                           receiver_state := DEST_ADDRESS_RECEIVED\<rparr>))
      | DEST_ADDRESS_RECEIVED \<Rightarrow>
          (case receiving_message s of None \<Rightarrow> Inl AttributeError
           | Some r \<Rightarrow>
               Inr (s\<lparr>receiving_message := Some (r\<lparr>src_address := Some byte\<rparr>),
                      receiver_state := SRC_ADDRESS_RECEIVED\<rparr>))
      | SRC_ADDRESS_RECEIVED \<Rightarrow>
          (case receiving_message s of None \<Rightarrow> Inl AttributeError
           | Some r \<Rightarrow>
               Inr (s\<lparr>receiving_message := Some (r\<lparr>transaction_id := Some byte\<rparr>),
                      receiver_state := TRANSACTION_ID_RECEIVED\<rparr>))
      | TRANSACTION_ID_RECEIVED \<Rightarrow>
          (case receiving_message s of None \<Rightarrow> Inl AttributeError
           | Some r \<Rightarrow>
               if \<not> (0 < byte \<and> byte \<le> MAX_MESSAGE_LEN)
               then Inr (reset_receiver s)
               else Inr (s\<lparr>receiving_message := Some (r\<lparr>length_rx := Some byte\<rparr>),
                           receiver_state := MESSAGE_LEN_RECEIVED\<rparr>))
      | MESSAGE_LEN_RECEIVED \<Rightarrow>
          if byte = STX
          then (case receiving_message s of None \<Rightarrow> Inl AttributeError
                | Some r \<Rightarrow>
                    (case (dst_address r, src_address r, length_rx r) of
                       (Some d, Some a, Some l) \<Rightarrow>
                         Inr (s\<lparr>receiving_message := Some (r\<lparr>crc := Some (d XOR a XOR l)\<rparr>),
                                receiver_state := STX_RECEIVED\<rparr>)
                     | _ \<Rightarrow> Inl TypeError))
          else Inr (reset_receiver s)
      | STX_RECEIVED \<Rightarrow>
          if is_valid_encoded_byte byte
          then (case receiving_message s of None \<Rightarrow> Inl AttributeError
                | Some r \<Rightarrow>
                    if is_first_nibble r
                    then Inr (s\<lparr>receiving_message :=
                                 Some (r\<lparr>incoming := byte AND 240, is_first_nibble := False\<rparr>)\<rparr>)
                    else (let inc = incoming r OR (byte AND 15) in
                          case crc r of None \<Rightarrow> Inl TypeError
                          | Some c \<Rightarrow>
                              Inr (s\<lparr>receiving_message :=
                                     Some (r\<lparr>is_first_nibble := True, incoming := inc,
                                             payload_buffer := payload_buffer r @ [inc],
                                             crc := Some (c XOR inc)\<rparr>)\<rparr>)))
          else if byte = ETX
          then (case receiving_message s of None \<Rightarrow> Inl AttributeError
                | Some r \<Rightarrow>
                    if Some (int (length (payload_buffer r))) = length_rx r
                    then Inr (s\<lparr>receiver_state := ETX_RECEIVED\<rparr>)
                    else Inr (reset_receiver s))
          else Inr (reset_receiver s)
      | ETX_RECEIVED \<Rightarrow>
          (case receiving_message s of None \<Rightarrow> Inl AttributeError
           | Some r \<Rightarrow>
               if Some byte = crc r
               then Inr (s\<lparr>receiver_state := CRC_OK\<rparr>)
               else Inr (reset_receiver s))
      | CRC_OK \<Rightarrow>
          if byte = EOT
          then (case receiving_message s of None \<Rightarrow> Inl AttributeError
                | Some r \<Rightarrow>
                    Inr (reset_receiver
                          (s\<lparr>received_messages := received_messages s @
                               [\<lparr> src_address_m = src_address r, dest_address = dst_address r,
                                  transaction_id_m = transaction_id r, length_m = length_rx r,
                                  payload_m = payload_buffer r \<rparr>]\<rparr>)))
          else Inr (reset_receiver s))"

text \<open>
  Feeding a byte sequence to the receiver, one \<^verbatim>\<open>_process_byte\<close> call per byte; \<open>clk k\<close> is the
  clock reading during the \<open>k\<close>-th call.  An exception ends the run.
\<close>

fun feed :: "(nat \<Rightarrow> int) \<Rightarrow> nat \<Rightarrow> int list \<Rightarrow> engine \<Rightarrow> exn + engine" where
  "feed clk k [] s = Inr s"
| "feed clk k (b # bs) s =
     (case process_byte (clk k) b s of Inl e \<Rightarrow> Inl e | Inr s' \<Rightarrow> feed clk (Suc k) bs s')"

subsection \<open>Receiving: \<^verbatim>\<open>_receive\<close>\<close>

text \<open>
  One round of the \<^verbatim>\<open>while self._interface.any() > 0\<close> loop: what \<^verbatim>\<open>read(1)\<close> returned
  (\<open>None\<close>, or the value of the byte), the clock reading taken for \<^verbatim>\<open>_last_bus_activity\<close>,
  and the one \<^verbatim>\<open>_process_byte\<close> takes if it opens a reception.
\<close>

record read_event =
  read_result :: "int option"
  now_read :: int
  now_soh :: int

text \<open>\<^verbatim>\<open>_receive\<close>, over the reads of one service tick.\<close>

fun receive :: "read_event list \<Rightarrow> engine \<Rightarrow> exn + engine" where
  "receive [] s = Inr s"
| "receive (e # es) s =
     (case read_result e of
        None \<Rightarrow> receive es s
      | Some byte \<Rightarrow>
          if byte = NULL \<and> receiver_state s = IDLE then receive es s
          else (case process_byte (now_soh e) byte (s\<lparr>last_bus_activity := now_read e\<rparr>) of
                  Inl x \<Rightarrow> Inl x
                | Inr s' \<Rightarrow> receive es s'))"

subsection \<open>Transmitting: \<^verbatim>\<open>_transmit\<close>\<close>

text \<open>
  The calls \<^verbatim>\<open>_transmit\<close> makes on the pin, the clock and the serial interface, in order.
  \<open>SleepTransmission n baud tenths\<close> is the \<^verbatim>\<open>sleep_us\<close> of the estimated transmission time
  of \<open>n\<close> bytes with safety margin \<open>tenths / 10\<close>; the floating-point duration is not
  computed here.
\<close>

datatype event =
  PinOn | PinOff | SleepMs int | SleepUs int | Write "int list" | Txdone | Flush
  | SleepTransmission nat int int

text \<open>
  What the interface does during one attempt: whether \<^verbatim>\<open>write\<close> raises, what the \<open>k\<close>-th call
  of \<^verbatim>\<open>txdone\<close> returns or raises, whether \<^verbatim>\<open>flush\<close> raises, and the two clock readings
  (at the line-idle gate and after the attempt).  A missing method raises
  \<^verbatim>\<open>AttributeError\<close>.
\<close>

datatype poll = TxDone bool | TxRaise exn

record tx_env =
  now_gate :: int
  write_raises :: "exn option"
  txdone :: "nat \<Rightarrow> poll"
  flush_raises :: "exn option"
  now_done :: int

text \<open>
  \<^verbatim>\<open>while not self._interface.txdone(): utime.sleep_us(10)\<close>, from the \<open>k\<close>-th call on.  The
  result is the exception that left the loop, if any, and the calls made; \<open>None\<close> is a loop
  that never ends.
\<close>

partial_function (option) wait_txdone :: "(nat \<Rightarrow> poll) \<Rightarrow> nat \<Rightarrow> (exn option \<times> event list) option"
where
  "wait_txdone polls k =
     (case polls k of
        TxRaise x \<Rightarrow> Some (Some x, [Txdone])
      | TxDone b \<Rightarrow>
          if b then Some (None, [Txdone])
          else Option.bind (wait_txdone polls (Suc k))
                 (\<lambda>(r, evs). Some (r, Txdone # SleepUs 10 # evs)))"

text \<open>The handler of the inner \<^verbatim>\<open>except AttributeError\<close>: flush, then sleep the estimate.\<close>

definition estimate_wait :: "engine \<Rightarrow> int list \<Rightarrow> int \<Rightarrow> exn option \<times> event list" where
  "estimate_wait s message_to_send tenths =
     (if interface_baudrate s = 0 then (Some ZeroDivisionError, [Flush])
      else (None, [Flush, SleepTransmission (length message_to_send) (interface_baudrate s) tenths]))"

definition fallback_wait :: "tx_env \<Rightarrow> engine \<Rightarrow> int list \<Rightarrow> exn option \<times> event list" where
  "fallback_wait e s message_to_send =
     (case flush_raises e of
        None \<Rightarrow> estimate_wait s message_to_send 11
      | Some x \<Rightarrow>
          if x = AttributeError then estimate_wait s message_to_send 12
          else (Some x, [Flush]))"

text \<open>The body of the outer \<^verbatim>\<open>try\<close>: the exception that left it, if any, and the calls made.\<close>

definition try_body :: "tx_env \<Rightarrow> engine \<Rightarrow> int list \<Rightarrow> (exn option \<times> event list) option" where
  "try_body e s message_to_send =
     (let pre = [PinOn, SleepMs (transceiver_toggle_time_ms s), Write message_to_send] in
      case write_raises e of
        Some x \<Rightarrow> Some (Some x, pre)
      | None \<Rightarrow>
          Option.bind (wait_txdone (txdone e) 0)
            (\<lambda>(r, evs).
               if r = Some AttributeError
               then (let (r', evs') = fallback_wait e s message_to_send
                     in Some (r', pre @ evs @ evs'))
               else Some (r, pre @ evs)))"

text \<open>
  \<^verbatim>\<open>_transmit\<close>: the returned flag, the engine afterwards and the calls made.  Every exception
  of the body is caught by \<^verbatim>\<open>except OSError\<close> or \<^verbatim>\<open>except Exception\<close>, both of which return
  \<^verbatim>\<open>False\<close>; the \<^verbatim>\<open>finally\<close> clause runs \<^verbatim>\<open>_disable_transmit_mode\<close>, which switches the pin
  off and calls \<^verbatim>\<open>utime.sleep_us\<close> with the toggle time.
\<close>

definition transmit :: "tx_env \<Rightarrow> engine \<Rightarrow> (bool \<times> engine \<times> event list) option" where
  "transmit e s =
     (case output_messages s of
        [] \<Rightarrow> Some (False, s, [])
      | message_to_send # rest \<Rightarrow>
          if ticks_diff (now_gate e) (last_bus_activity s) < LINE_READY_TIME_MS
          then Some (False, s, [])
          else Option.bind (try_body e s message_to_send)
                 (\<lambda>(r, evs).
                    let evs' = evs @ [PinOff, SleepUs (transceiver_toggle_time_ms s)] in
                    case r of
                      Some x \<Rightarrow> Some (False, s, evs')
                    | None \<Rightarrow>
                        Some (True,
                              s\<lparr>last_bus_activity := now_done e, output_messages := rest\<rparr>,
                              evs')))"

subsection \<open>The service tick: \<^verbatim>\<open>loop\<close>\<close>

record tick_env =
  rx :: "read_event list"
  tx :: tx_env
  now_timeout :: int

text \<open>
  \<^verbatim>\<open>loop\<close>: receive, transmit, then the packet-timeout check, which reads the timestamp of
  the reception in progress whenever the state is not \<open>IDLE\<close>.
\<close>

definition loop :: "tick_env \<Rightarrow> engine \<Rightarrow> (exn + engine \<times> event list) option" where
  "loop e s =
     (case receive (rx e) s of
        Inl x \<Rightarrow> Some (Inl x)
      | Inr s1 \<Rightarrow>
          Option.bind (transmit (tx e) s1)
            (\<lambda>(ok, s2, evs).
               if receiver_state s2 \<noteq> IDLE
               then (case receiving_message s2 of
                       None \<Rightarrow> Some (Inl AttributeError)
                     | Some r \<Rightarrow>
                         if ticks_diff (now_timeout e) (timestamp r) > PACKET_TIMEOUT_MS
                         then Some (Inr (reset_receiver s2, evs))
                         else Some (Inr (s2, evs)))
               else Some (Inr (s2, evs))))"

text \<open>
  The states an engine can be in: built by \<^verbatim>\<open>__init__\<close>, then any sequence of returning
  calls of \<^verbatim>\<open>loop\<close>, \<^verbatim>\<open>send_message\<close>, \<^verbatim>\<open>respond\<close>, \<^verbatim>\<open>read\<close> and \<^verbatim>\<open>set_address\<close> (the other
  public methods change nothing).
\<close>

inductive reachable :: "engine \<Rightarrow> bool" where
  init: "new_engine baudrate addr toggle_ms now = Inr s \<Longrightarrow> reachable s"
| tick: "reachable s \<Longrightarrow> loop e s = Some (Inr (s', evs)) \<Longrightarrow> reachable s'"
| send: "reachable s \<Longrightarrow> send_message s dst payload tid = Inr (ok, s') \<Longrightarrow> reachable s'"
| reply: "reachable s \<Longrightarrow> respond m s payload allow = Inr (ok, s') \<Longrightarrow> reachable s'"
| read: "reachable s \<Longrightarrow> read s = Inr (m, s') \<Longrightarrow> reachable s'"
| readdress: "reachable s \<Longrightarrow> set_address s a = Inr s' \<Longrightarrow> reachable s'"

section \<open>The wire layout and sample values\<close>

text \<open>
  The frame layout of the specification (section 4.2), to be compared with what the loop of
  \<^verbatim>\<open>send_message\<close> builds: three fillers, the header, two wire bytes per payload byte, the
  end marker, the checksum, the terminator and two fillers.
\<close>

definition encode_payload :: "int list \<Rightarrow> int list" where
  "encode_payload ps = concat (map (\<lambda>p. [enc_hi p, enc_lo p]) ps)"

definition checksum :: "int \<Rightarrow> int \<Rightarrow> int list \<Rightarrow> int" where
  "checksum src dst ps = fold (\<lambda>p c. c XOR p) ps (src XOR dst XOR int (length ps))"

definition wire_frame :: "int \<Rightarrow> int \<Rightarrow> int \<Rightarrow> int list \<Rightarrow> int list" where
  "wire_frame src dst tid ps =
     [LF, LF, LF, SOH, dst, src, tid, int (length ps), STX] @ encode_payload ps
       @ [ETX, checksum src dst ps, EOT, LF, LF]"

text \<open>The values an element of a \<^verbatim>\<open>bytes\<close> object can take.\<close>

definition is_byte :: "int \<Rightarrow> bool" where
  "is_byte x \<longleftrightarrow> 0 \<le> x \<and> x < 256"

text \<open>An idle node with address 5, as \<^verbatim>\<open>__init__\<close> leaves it at clock reading 0.\<close>

definition node5 :: engine where
  "node5 = \<lparr> interface_baudrate = 9600, address = 5, transceiver_toggle_time_ms = 20,
             last_bus_activity = 0, receiver_state = IDLE, receiving_message = None,
             received_messages = [], output_messages = [] \<rparr>"

section \<open>Outcomes of a transmit attempt\<close>

text \<open>The first \<open>k\<close> calls of \<^verbatim>\<open>txdone\<close> return \<^verbatim>\<open>False\<close>.\<close>

definition polls_false_until :: "(nat \<Rightarrow> poll) \<Rightarrow> nat \<Rightarrow> bool" where
  "polls_false_until polls k \<longleftrightarrow> (\<forall>i<k. polls i = TxDone False)"

text \<open>
  An attempt fails with exception \<open>x\<close>: \<^verbatim>\<open>write\<close> raises it, or the completion wait does,
  either in the \<open>k\<close>-th call of \<^verbatim>\<open>txdone\<close> or, when that method is missing, in \<^verbatim>\<open>flush\<close>.
  (\<^verbatim>\<open>AttributeError\<close> from these two methods is not a failure of the wait: it selects the
  fallback.)
\<close>

definition attempt_fails :: "tx_env \<Rightarrow> nat \<Rightarrow> exn \<Rightarrow> bool" where
  "attempt_fails e k x \<longleftrightarrow>
     write_raises e = Some x
     \<or> (write_raises e = None \<and> polls_false_until (txdone e) k \<and> x \<noteq> AttributeError
        \<and> (txdone e k = TxRaise x
            \<or> (txdone e k = TxRaise AttributeError \<and> flush_raises e = Some x)))"

text \<open>
  An attempt completes: \<^verbatim>\<open>write\<close> returns and the wait ends, either because the \<open>k\<close>-th
  call of \<^verbatim>\<open>txdone\<close> returns \<^verbatim>\<open>True\<close>, or through the fallback (\<^verbatim>\<open>txdone\<close> missing, \<^verbatim>\<open>flush\<close>
  returning or missing, and a baud rate to divide by).
\<close>

definition attempt_completes :: "tx_env \<Rightarrow> engine \<Rightarrow> nat \<Rightarrow> bool" where
  "attempt_completes e s k \<longleftrightarrow>
     write_raises e = None \<and> polls_false_until (txdone e) k
     \<and> (txdone e k = TxDone True
        \<or> (txdone e k = TxRaise AttributeError
            \<and> (flush_raises e = None \<or> flush_raises e = Some AttributeError)
            \<and> interface_baudrate s \<noteq> 0))"

text \<open>An interface on which everything works at once, and one whose \<^verbatim>\<open>write\<close> fails.\<close>

definition quiet_env :: tx_env where
  "quiet_env = \<lparr> now_gate = 100, write_raises = None, txdone = (\<lambda>k. TxDone True),
                 flush_raises = None, now_done = 130 \<rparr>"

definition broken_env :: tx_env where
  "broken_env = \<lparr> now_gate = 100, write_raises = Some OSError, txdone = (\<lambda>k. TxDone True),
                  flush_raises = None, now_done = 130 \<rparr>"

text \<open>The node of address 5 with one frame queued.\<close>

definition node5_queued :: engine where
  "node5_queued = node5\<lparr>output_messages := [wire_frame 5 0 7 [65]]\<rparr>"

section \<open>Well-formed receiver states\<close>

text \<open>The numbers class \<^verbatim>\<open>ReceiverState\<close> gives its states.\<close>

fun state_number :: "ReceiverState \<Rightarrow> nat" where
  "state_number IDLE = 0"
| "state_number SOH_RECEIVED = 1"
| "state_number DEST_ADDRESS_RECEIVED = 2"
| "state_number SRC_ADDRESS_RECEIVED = 3"
| "state_number TRANSACTION_ID_RECEIVED = 4"
| "state_number MESSAGE_LEN_RECEIVED = 5"
| "state_number STX_RECEIVED = 6"
| "state_number ETX_RECEIVED = 7"
| "state_number CRC_OK = 8"

text \<open>
  What holds of the receiver between two calls: there is a reception in progress exactly
  when the state is not \<open>IDLE\<close>, the header fields read so far are set, the declared length
  is in 1..255 once read, the checksum is set once the body has begun, and nothing has been
  decoded before the body begins.
\<close>

definition engine_ok :: "engine \<Rightarrow> bool" where
  "engine_ok s \<longleftrightarrow>
     (case receiving_message s of
        None \<Rightarrow> receiver_state s = IDLE
      | Some r \<Rightarrow>
          (let n = state_number (receiver_state s) in
           n \<noteq> 0
           \<and> (2 \<le> n \<longrightarrow> dst_address r \<noteq> None)
           \<and> (3 \<le> n \<longrightarrow> src_address r \<noteq> None)
           \<and> (5 \<le> n \<longrightarrow> (case length_rx r of None \<Rightarrow> False
                                | Some l \<Rightarrow> 0 < l \<and> l \<le> MAX_MESSAGE_LEN))
           \<and> (6 \<le> n \<longrightarrow> crc r \<noteq> None)
           \<and> (n \<le> 5 \<longrightarrow> payload_buffer r = [] \<and> is_first_nibble r)))"

text \<open>
  A service tick in which the bytes \<open>SOH\<close> and \<open>05\<close> arrive at clock readings 3 and 4, and
  the state it leaves the idle node of address 5 in.
\<close>

definition tick_soh_dst :: tick_env where
  "tick_soh_dst =
     \<lparr> rx = [\<lparr> read_result = Some 1, now_read = 3, now_soh = 3 \<rparr>,
             \<lparr> read_result = Some 5, now_read = 4, now_soh = 4 \<rparr>],
       tx = quiet_env, now_timeout = 5 \<rparr>"

definition node5_mid :: engine where
  "node5_mid =
     node5\<lparr>last_bus_activity := 4, receiver_state := DEST_ADDRESS_RECEIVED,
            receiving_message := Some ((new_ReceivingMessage 3)\<lparr>dst_address := Some 5\<rparr>)\<rparr>"

section \<open>How far a receiver is from delivering a message\<close>

text \<open>
  A lower bound on the number of bytes \<open>process_byte\<close> must still consume before it can
  append a message: from \<open>IDLE\<close> the start marker, four header bytes, the body marker, two
  wire bytes, the end marker, the checksum and the terminator; inside the body three bytes
  once the assembled payload has the declared length, and at least one more wire byte
  otherwise.
\<close>

definition bytes_needed :: "engine \<Rightarrow> nat" where
  "bytes_needed s =
     (case receiver_state s of
        IDLE \<Rightarrow> 11
      | SOH_RECEIVED \<Rightarrow> 10
      | DEST_ADDRESS_RECEIVED \<Rightarrow> 9
      | SRC_ADDRESS_RECEIVED \<Rightarrow> 8
      | TRANSACTION_ID_RECEIVED \<Rightarrow> 7
      | MESSAGE_LEN_RECEIVED \<Rightarrow> 6
      | STX_RECEIVED \<Rightarrow>
          (case receiving_message s of
             None \<Rightarrow> 3
           | Some r \<Rightarrow>
               if Some (int (length (payload_buffer r))) = length_rx r then 3
               else if is_first_nibble r then 5 else 4)
      | ETX_RECEIVED \<Rightarrow> 2
      | CRC_OK \<Rightarrow> 1)"

text \<open>The node of address 5 just after a start-of-frame marker read at clock reading 3.\<close>

definition node5_soh :: engine where
  "node5_soh = node5\<lparr>receiver_state := SOH_RECEIVED,
                      receiving_message := Some (new_ReceivingMessage 3)\<rparr>"

section \<open>Runs of service ticks\<close>

text \<open>The frames handed to \<^verbatim>\<open>write\<close> in a sequence of calls, in order.\<close>

fun written :: "event list \<Rightarrow> int list list" where
  "written [] = []"
| "written (Write f # evs) = f # written evs"
| "written (ev # evs) = written evs"

text \<open>
  A run of service ticks, each of which returns.  The log holds, for every tick, the time
  since the last bus activity as the gate of that tick's transmit step computes it (after
  the tick's receive step), and the calls the transmit step made.
\<close>

fun service :: "tick_env list \<Rightarrow> engine \<Rightarrow> (engine \<times> (int \<times> event list) list) option" where
  "service [] s = Some (s, [])"
| "service (e # es) s =
     (case receive (rx e) s of
        Inl x \<Rightarrow> None
      | Inr sr \<Rightarrow>
          (case loop e s of
             Some (Inr (s', evs)) \<Rightarrow>
               (case service es s' of
                  Some (s'', log) \<Rightarrow>
                    Some (s'', (ticks_diff (now_gate (tx e)) (last_bus_activity sr), evs) # log)
                | None \<Rightarrow> None)
           | _ \<Rightarrow> None))"

section \<open>Properties of the encoding\<close>

lemma m15: "(15::int) = mask 4"
  by (simp add: mask_eq_exp_minus_1)

lemma m255: "(255::int) = mask 8"
  by (simp add: mask_eq_exp_minus_1)

lemma m240: "(240::int) = push_bit 4 (mask 4)"
  by (simp add: mask_eq_exp_minus_1 push_bit_eq_mult)

lemma is_byte_take_bit: "is_byte x \<longleftrightarrow> take_bit 8 x = x"
  by (simp add: is_byte_def take_bit_int_eq_self_iff)

lemma enc_hi_valid: "is_valid_encoded_byte (enc_hi p)"
  unfolding is_valid_encoded_byte_def enc_hi_def Let_def m15 m255 m240
  by (rule bit_eqI) (auto simp add: bit_simps)

lemma enc_lo_valid: "is_valid_encoded_byte (enc_lo p)"
  unfolding is_valid_encoded_byte_def enc_lo_def Let_def m15 m255 m240
  by (rule bit_eqI) (auto simp add: bit_simps)

lemma valid_is_byte:
  assumes "is_valid_encoded_byte b"
  shows "is_byte b"
proof -
  from assms
  have "b = (NOT ((push_bit 4 b AND 240) OR (drop_bit 4 b AND 15))) AND mask 8"
    by (simp add: is_valid_encoded_byte_def m255)
  then have "take_bit 8 b = b"
    by (metis take_bit_eq_mask and.right_idem and.assoc)
  then show ?thesis by (simp add: is_byte_take_bit)
qed

lemma enc_hi_range: "is_byte (enc_hi p)"
  by (rule valid_is_byte [OF enc_hi_valid])

lemma enc_lo_range: "is_byte (enc_lo p)"
  by (rule valid_is_byte [OF enc_lo_valid])

text \<open>Two consecutive wire bytes decode to the payload byte they came from.\<close>

lemma decode_encode:
  assumes "is_byte p"
  shows "(enc_hi p AND 240) OR (enc_lo p AND 15) = p"
proof -
  from assms have p: "take_bit 8 p = p" by (simp add: is_byte_take_bit)
  have "(enc_hi p AND 240) OR (enc_lo p AND 15) = take_bit 8 p"
    unfolding enc_hi_def enc_lo_def Let_def m15 m255 m240
    by (rule bit_eqI) (auto simp add: bit_simps)
  with p show ?thesis by simp
qed

lemma xor_is_byte: "is_byte a \<Longrightarrow> is_byte b \<Longrightarrow> is_byte (a XOR b)"
  by (simp add: is_byte_take_bit take_bit_xor)

text \<open>No control marker passes the nibble-complement test.\<close>

lemma valid_not_control:
  "is_valid_encoded_byte b \<Longrightarrow>
     b \<noteq> SOH \<and> b \<noteq> STX \<and> b \<noteq> ETX \<and> b \<noteq> EOT \<and> b \<noteq> LF \<and> b \<noteq> NULL"
  by (auto simp: is_valid_encoded_byte_def SOH_def STX_def ETX_def EOT_def LF_def NULL_def)

text \<open>A byte that passes the test is fixed by either of its nibbles.\<close>

lemma valid_bits:
  assumes "is_valid_encoded_byte a"
  shows "bit a n \<longleftrightarrow> n < 8 \<and> (if n < 4 then \<not> bit a (4 + n) else \<not> bit a (n - 4))"
proof -
  have "bit a n = bit ((NOT ((push_bit 4 a AND push_bit 4 (mask 4))
                         OR (drop_bit 4 a AND mask 4))) AND mask 8) n"
    using assms by (simp add: is_valid_encoded_byte_def m15 m255 m240)
  then show ?thesis
    by (auto simp add: bit_simps)
qed

lemma valid_enc_hi_self: "is_valid_encoded_byte a \<Longrightarrow> enc_hi a = a"
  unfolding enc_hi_def Let_def m15 m240
  apply (rule bit_eqI)
  subgoal for n using valid_bits [of a n] by (auto simp add: bit_simps)
  done

lemma valid_enc_lo_self: "is_valid_encoded_byte a \<Longrightarrow> enc_lo a = a"
  unfolding enc_lo_def Let_def m15 m240
  apply (rule bit_eqI)
  subgoal for n using valid_bits [of a n] by (auto simp add: bit_simps)
  done

lemma valid_hi_determines:
  assumes "is_valid_encoded_byte a" "is_valid_encoded_byte b" "a AND 240 = b AND 240"
  shows "a = b"
proof -
  have "enc_hi a = enc_hi b" using assms(3) by (simp add: enc_hi_def)
  then show ?thesis using assms(1,2) by (simp add: valid_enc_hi_self)
qed

lemma valid_lo_determines:
  assumes "is_valid_encoded_byte a" "is_valid_encoded_byte b" "a AND 15 = b AND 15"
  shows "a = b"
proof -
  have "enc_lo a = enc_lo b" using assms(3) by (simp add: enc_lo_def)
  then show ?thesis using assms(1,2) by (simp add: valid_enc_lo_self)
qed

text \<open>The loop of \<^verbatim>\<open>send_message\<close> builds the payload part of the wire layout.\<close>

lemma encode_loop_eq:
  "encode_loop ps c buf = (fold (\<lambda>p c. c XOR p) ps c, buf @ encode_payload ps)"
  by (induction ps arbitrary: c buf) (simp_all add: encode_payload_def)

lemma fold_xor_is_byte:
  "is_byte c \<Longrightarrow> list_all is_byte ps \<Longrightarrow> is_byte (fold (\<lambda>p c. c XOR p) ps c)"
  by (induction ps arbitrary: c) (simp_all add: xor_is_byte)

section \<open>The outbound queue\<close>

text \<open>
  C6, as stated: \<open>pending_send\<close> returns the size of the outbound FIFO.  It does not: it
  returns the truth value of \<^verbatim>\<open>len(self._output_messages) > 0\<close>.  With two frames queued the
  result is \<^verbatim>\<open>True\<close>, which read as a number is 1, not 2.
\<close>

theorem pending_send_not_count:
  "of_bool (pending_send (node5\<lparr>output_messages := [wire_frame 5 0 0 [65], wire_frame 5 0 0 [66]]\<rparr>))
     \<noteq> length (output_messages
                  (node5\<lparr>output_messages := [wire_frame 5 0 0 [65], wire_frame 5 0 0 [66]]\<rparr>))"
  by (simp add: pending_send_def)

text \<open>
  C6, amended: for every engine state \<open>pending_send\<close> returns whether the outbound FIFO holds
  at least one frame, that is, whether its size is positive.
\<close>

theorem pending_send_nonempty:
  "pending_send s = (0 < length (output_messages s)) \<and> pending_send s = (output_messages s \<noteq> [])"
  by (simp add: pending_send_def)

lemma bytes1_ok: "is_byte x \<Longrightarrow> bytes1 x = Inr [x]"
  by (simp add: bytes1_def is_byte_def)

lemma checksum_is_byte:
  "is_byte src \<Longrightarrow> is_byte dst \<Longrightarrow> length ps \<le> 255 \<Longrightarrow> list_all is_byte ps \<Longrightarrow> is_byte (checksum src dst ps)"
  unfolding checksum_def
  by (intro fold_xor_is_byte xor_is_byte) (simp_all add: is_byte_def)

lemma send_message_frame:
  assumes "payload \<noteq> []" "length payload \<le> 255" "is_byte dst" "is_byte tid"
    "is_byte (address s)" "list_all is_byte payload"
  shows "send_message s dst payload tid =
           Inr (True, s\<lparr>output_messages :=
                  output_messages s @ [wire_frame (address s) dst tid payload]\<rparr>)"
proof -
  have len: "is_byte (int (length payload))" using assms(2) by (simp add: is_byte_def)
  have c: "is_byte (checksum (address s) dst payload)"
    using assms by (simp add: checksum_is_byte)
  show ?thesis
    using assms(1,2) c
    by (simp add: send_message_def Let_def MAX_MESSAGE_LEN_def bytes1_ok assms(3,4,5) len
        encode_loop_eq wire_frame_def checksum_def numeral_3_eq_3 numeral_2_eq_2)
qed

text \<open>
  C4: \<open>send_message\<close> raises \<^verbatim>\<open>ValueError\<close> for every payload of length 0 and of length
  above 255; the exception leaves before the only assignment to the engine (the append at
  the end), so the model returns no new engine and the caller keeps the old one.  For every
  payload of 1 to 255 bytes, with destination and transaction id single bytes as the wire
  format has them, it appends exactly one frame, laid out as the specification says, to the
  outbound FIFO and returns \<^verbatim>\<open>True\<close>.
\<close>

theorem send_message_length_check:
  "(length payload = 0 \<or> 255 < length payload \<longrightarrow>
      send_message s dst payload tid = Inl ValueError)
   \<and> (1 \<le> length payload \<and> length payload \<le> 255 \<and> is_byte dst \<and> is_byte tid
        \<and> is_valid_node_address (address s) \<and> list_all is_byte payload \<longrightarrow>
      send_message s dst payload tid =
        Inr (True, s\<lparr>output_messages :=
               output_messages s @ [wire_frame (address s) dst tid payload]\<rparr>))"
proof (intro conjI impI)
  assume "length payload = 0 \<or> 255 < length payload"
  then show "send_message s dst payload tid = Inl ValueError"
    by (auto simp add: send_message_def Let_def MAX_MESSAGE_LEN_def)
next
  assume a: "1 \<le> length payload \<and> length payload \<le> 255 \<and> is_byte dst \<and> is_byte tid
        \<and> is_valid_node_address (address s) \<and> list_all is_byte payload"
  then have "is_byte (address s)"
    by (simp add: is_valid_node_address_def is_byte_def FIRST_NODE_ADDRESS_def
        LAST_NODE_ADDRESS_def BROADCAST_ADDRESS_def)
  moreover from a have "payload \<noteq> []" by auto
  ultimately show "send_message s dst payload tid =
        Inr (True, s\<lparr>output_messages :=
               output_messages s @ [wire_frame (address s) dst tid payload]\<rparr>)"
    using a by (simp add: send_message_frame)
qed

theorem send_message_length_check_witness:
  "send_message node5 0 [] 0 = Inl ValueError
   \<and> send_message node5 0 (replicate 256 65) 0 = Inl ValueError
   \<and> send_message node5 0 [65] 7 =
       Inr (True, node5\<lparr>output_messages := [[10, 10, 10, 1, 0, 5, 7, 1, 2, 75, 225, 3, 69, 4, 10, 10]]\<rparr>)"
  using send_message_length_check [of "[]" node5 0 0]
    send_message_length_check [of "replicate 256 65" node5 0 0]
    send_message_length_check [of "[65]" node5 0 7]
  by (simp add: node5_def is_byte_def is_valid_node_address_def FIRST_NODE_ADDRESS_def
        LAST_NODE_ADDRESS_def BROADCAST_ADDRESS_def wire_frame_def encode_payload_def
        checksum_def enc_hi_def enc_lo_def LF_def SOH_def STX_def ETX_def EOT_def)

section \<open>The transmit scheduler\<close>

lemma wait_txdone_steps:
  assumes "\<forall>i<k. polls (n + i) = TxDone False" "polls (n + k) \<noteq> TxDone False"
  shows "wait_txdone polls n =
           Some (case polls (n + k) of TxRaise x \<Rightarrow> Some x | TxDone b \<Rightarrow> None,
                 concat (replicate k [Txdone, SleepUs 10]) @ [Txdone])"
  using assms
proof (induction k arbitrary: n)
  case 0
  then show ?case
    by (subst wait_txdone.simps) (auto split: poll.splits)
next
  case (Suc k)
  from Suc.prems(1) have p0: "polls n = TxDone False" by (metis add.right_neutral zero_less_Suc)
  have "\<forall>i<k. polls (Suc n + i) = TxDone False"
    using Suc.prems(1) by (metis Suc_less_eq add_Suc_right add_Suc)
  moreover have "polls (Suc n + k) \<noteq> TxDone False" using Suc.prems(2) by simp
  ultimately have IH: "wait_txdone polls (Suc n) =
           Some (case polls (Suc n + k) of TxRaise x \<Rightarrow> Some x | TxDone b \<Rightarrow> None,
                 concat (replicate k [Txdone, SleepUs 10]) @ [Txdone])"
    by (rule Suc.IH)
  show ?case
    by (subst wait_txdone.simps) (simp add: p0 IH)
qed

lemma wait_txdone_from_0:
  assumes "polls_false_until polls k" "polls k \<noteq> TxDone False"
  shows "wait_txdone polls 0 =
           Some (case polls k of TxRaise x \<Rightarrow> Some x | TxDone b \<Rightarrow> None,
                 concat (replicate k [Txdone, SleepUs 10]) @ [Txdone])"
  using wait_txdone_steps [of k polls 0] assms by (simp add: polls_false_until_def)

lemma try_body_fails:
  assumes "attempt_fails e k x"
  shows "\<exists>evs. try_body e s frame = Some (Some x, evs)"
  using assms unfolding attempt_fails_def
proof (elim disjE conjE)
  assume "write_raises e = Some x"
  then show ?thesis by (simp add: try_body_def)
next
  assume a: "write_raises e = None" "polls_false_until (txdone e) k" "x \<noteq> AttributeError"
    "txdone e k = TxRaise x"
  then show ?thesis
    by (simp add: try_body_def wait_txdone_from_0 [of _ k])
next
  assume a: "write_raises e = None" "polls_false_until (txdone e) k" "x \<noteq> AttributeError"
    "txdone e k = TxRaise AttributeError" "flush_raises e = Some x"
  then show ?thesis
    by (simp add: try_body_def wait_txdone_from_0 [of _ k] fallback_wait_def)
qed

lemma try_body_completes:
  assumes "attempt_completes e s k"
  shows "\<exists>evs. try_body e s frame = Some (None, evs)"
  using assms unfolding attempt_completes_def
  by (auto simp add: try_body_def wait_txdone_from_0 [of _ k] fallback_wait_def estimate_wait_def)

text \<open>
  C5: in an attempt that passed the gate, if the write or the completion wait fails with an
  exception (an I/O error \<^verbatim>\<open>OSError\<close> in particular), \<open>transmit\<close> returns \<^verbatim>\<open>False\<close> and the
  engine, its queue included, is what it was: the frame stays at the head.  If the attempt
  completes, \<open>transmit\<close> returns \<^verbatim>\<open>True\<close>, the last-bus-activity timestamp is the clock
  reading taken after the attempt, and the head frame is gone from the queue.
\<close>

theorem transmit_outcome:
  assumes "output_messages s = frame # rest"
    and "LINE_READY_TIME_MS \<le> ticks_diff (now_gate e) (last_bus_activity s)"
  shows "(attempt_fails e k x \<longrightarrow> (\<exists>evs. transmit e s = Some (False, s, evs)))
       \<and> (attempt_completes e s k \<longrightarrow>
            (\<exists>evs. transmit e s =
               Some (True, s\<lparr>last_bus_activity := now_done e, output_messages := rest\<rparr>, evs)))"
proof (intro conjI impI)
  assume "attempt_fails e k x"
  then obtain evs where "try_body e s frame = Some (Some x, evs)"
    using try_body_fails by blast
  then show "\<exists>evs. transmit e s = Some (False, s, evs)"
    using assms by (simp add: transmit_def)
next
  assume "attempt_completes e s k"
  then obtain evs where "try_body e s frame = Some (None, evs)"
    using try_body_completes by blast
  then show "\<exists>evs. transmit e s =
               Some (True, s\<lparr>last_bus_activity := now_done e, output_messages := rest\<rparr>, evs)"
    using assms by (simp add: transmit_def)
qed


theorem transmit_outcome_witness:
  "attempt_fails broken_env 0 OSError \<and> attempt_completes quiet_env node5_queued 0
   \<and> (\<exists>evs. transmit broken_env node5_queued = Some (False, node5_queued, evs))
   \<and> (\<exists>evs. transmit quiet_env node5_queued =
         Some (True, node5_queued\<lparr>last_bus_activity := 130, output_messages := []\<rparr>, evs))"
proof -
  have q: "output_messages node5_queued = wire_frame 5 0 7 [65] # []"
    by (simp add: node5_queued_def)
  have g1: "LINE_READY_TIME_MS \<le> ticks_diff (now_gate broken_env) (last_bus_activity node5_queued)"
    by (simp add: LINE_READY_TIME_MS_def ticks_diff_def TICKS_PERIOD_def broken_env_def
        node5_queued_def node5_def)
  have g2: "LINE_READY_TIME_MS \<le> ticks_diff (now_gate quiet_env) (last_bus_activity node5_queued)"
    by (simp add: LINE_READY_TIME_MS_def ticks_diff_def TICKS_PERIOD_def quiet_env_def
        node5_queued_def node5_def)
  have f: "attempt_fails broken_env 0 OSError"
    by (simp add: attempt_fails_def broken_env_def)
  have c: "attempt_completes quiet_env node5_queued 0"
    by (simp add: attempt_completes_def quiet_env_def polls_false_until_def)
  show ?thesis
    using transmit_outcome [OF q g1, of 0 OSError] transmit_outcome [OF q g2, of 0 OSError] f c
    by (simp add: quiet_env_def)
qed

lemma wait_txdone_quiet: "wait_txdone (\<lambda>k. TxDone True) 0 = Some (None, [Txdone])"
  by (subst wait_txdone.simps) simp

text \<open>
  C7: every attempt that passes the gate and returns ends with the pin switched off and a
  sleep (lemma \<open>transmit_trace_shape\<close> below), also when the write or the wait failed.  The
  sleep, however, is \<^verbatim>\<open>utime.sleep_us\<close> called with the toggle time in milliseconds: with
  the default of 20 the node waits 20 ms before the write and 20 microseconds after
  switching the pin off, on the successful and on the failed attempt alike.
\<close>

theorem settle_after_deassert_is_microseconds:
  "transmit quiet_env node5_queued =
     Some (True, node5\<lparr>last_bus_activity := 130\<rparr>,
           [PinOn, SleepMs 20, Write (wire_frame 5 0 7 [65]), Txdone, PinOff, SleepUs 20])
   \<and> transmit broken_env node5_queued =
     Some (False, node5_queued,
           [PinOn, SleepMs 20, Write (wire_frame 5 0 7 [65]), PinOff, SleepUs 20])"
  by (simp add: transmit_def try_body_def quiet_env_def broken_env_def node5_queued_def
      node5_def wait_txdone_quiet ticks_diff_def TICKS_PERIOD_def LINE_READY_TIME_MS_def)

lemma wait_txdone_events_aux:
  assumes "wait_txdone polls k = Some y"
  shows "set (snd y) \<subseteq> {Txdone, SleepUs 10}"
proof (rule wait_txdone.raw_induct
    [where P = "\<lambda>polls k y. set (snd y) \<subseteq> {Txdone, SleepUs 10}", OF _ assms])
  fix wait :: "(nat \<Rightarrow> poll) \<Rightarrow> nat \<Rightarrow> (exn option \<times> event list) option"
    and polls k y
  assume IH: "\<And>p j z. wait p j = Some z \<Longrightarrow> set (snd z) \<subseteq> {Txdone, SleepUs 10}"
    and eq: "(case polls k of
                TxDone b \<Rightarrow>
                  if b then Some (None, [Txdone])
                  else Option.bind (wait polls (Suc k))
                         (\<lambda>(r, evs). Some (r, Txdone # SleepUs 10 # evs))
              | TxRaise x \<Rightarrow> Some (Some x, [Txdone])) = Some y"
  show "set (snd y) \<subseteq> {Txdone, SleepUs 10}"
  proof (cases "polls k")
    case (TxRaise x)
    with eq show ?thesis by auto
  next
    case (TxDone b)
    show ?thesis
    proof (cases b)
      case True
      with TxDone eq show ?thesis by auto
    next
      case False
      with TxDone eq obtain z where w: "wait polls (Suc k) = Some z"
        and y: "y = (fst z, Txdone # SleepUs 10 # snd z)"
        by (auto split: Option.bind_splits)
      from IH [OF w] y show ?thesis by auto
    qed
  qed
qed

lemma wait_txdone_events:
  "wait_txdone polls k = Some (r, evs) \<Longrightarrow> set evs \<subseteq> {Txdone, SleepUs 10}"
  using wait_txdone_events_aux [of polls k "(r, evs)"] by simp

lemma fallback_wait_events:
  "fallback_wait e s frame = (r, evs) \<Longrightarrow>
     set evs \<subseteq> {Flush, SleepTransmission (length frame) (interface_baudrate s) 11,
                 SleepTransmission (length frame) (interface_baudrate s) 12}"
  by (auto simp add: fallback_wait_def estimate_wait_def split: option.splits if_splits)

lemma try_body_events:
  assumes "try_body e s frame = Some (r, evs)"
  shows "\<exists>mid. evs = [PinOn, SleepMs (transceiver_toggle_time_ms s), Write frame] @ mid
           \<and> set mid \<subseteq> {Txdone, SleepUs 10, Flush,
                 SleepTransmission (length frame) (interface_baudrate s) 11,
                 SleepTransmission (length frame) (interface_baudrate s) 12}"
  using assms
  by (auto simp add: try_body_def Let_def split: option.splits if_splits prod.splits Option.bind_splits
      dest!: wait_txdone_events fallback_wait_events)

lemma transmit_trace_shape:
  assumes "transmit e s = Some (ok, s', evs)" "evs \<noteq> []"
  shows "\<exists>frame rest mid. output_messages s = frame # rest
           \<and> LINE_READY_TIME_MS \<le> ticks_diff (now_gate e) (last_bus_activity s)
           \<and> evs = [PinOn, SleepMs (transceiver_toggle_time_ms s), Write frame] @ mid
                   @ [PinOff, SleepUs (transceiver_toggle_time_ms s)]
           \<and> set mid \<subseteq> {Txdone, SleepUs 10, Flush,
                 SleepTransmission (length frame) (interface_baudrate s) 11,
                 SleepTransmission (length frame) (interface_baudrate s) 12}"
proof (cases "output_messages s")
  case Nil
  with assms show ?thesis by (simp add: transmit_def)
next
  case (Cons frame rest)
  show ?thesis
  proof (cases "ticks_diff (now_gate e) (last_bus_activity s) < LINE_READY_TIME_MS")
    case True
    with Cons assms show ?thesis by (simp add: transmit_def)
  next
    case False
    with Cons assms obtain r evs0 where b: "try_body e s frame = Some (r, evs0)"
      and evs: "evs = evs0 @ [PinOff, SleepUs (transceiver_toggle_time_ms s)]"
      by (auto simp add: transmit_def Let_def split: Option.bind_splits option.splits)
    from try_body_events [OF b] obtain mid where
      "evs0 = [PinOn, SleepMs (transceiver_toggle_time_ms s), Write frame] @ mid"
      "set mid \<subseteq> {Txdone, SleepUs 10, Flush,
                 SleepTransmission (length frame) (interface_baudrate s) 11,
                 SleepTransmission (length frame) (interface_baudrate s) 12}"
      by blast
    with Cons False evs show ?thesis by auto
  qed
qed

section \<open>The receiver on a well-formed frame\<close>

lemma feed_append:
  "feed clk k (xs @ ys) s =
     (case feed clk k xs s of Inl e \<Rightarrow> Inl e | Inr s' \<Rightarrow> feed clk (k + length xs) ys s')"
  by (induction xs arbitrary: k s) (auto split: sum.splits)

lemma pb_idle:
  "receiver_state s = IDLE \<Longrightarrow>
     process_byte now b s =
       Inr (if b = SOH
            then s\<lparr>receiver_state := SOH_RECEIVED,
                   receiving_message := Some (new_ReceivingMessage now)\<rparr>
            else s)"
  by (simp add: process_byte_def)

lemma feed_idle_skip:
  "receiver_state s = IDLE \<Longrightarrow> SOH \<notin> set bs \<Longrightarrow> feed clk k bs s = Inr s"
  by (induction bs arbitrary: k) (auto simp add: pb_idle)

lemma feed_header:
  assumes "receiver_state s = IDLE" "dst = address s \<or> dst = BROADCAST_ADDRESS"
    "0 < len" "len \<le> 255"
  shows "feed clk k [SOH, dst, src, tid, len, STX] s =
           Inr (s\<lparr>receiver_state := STX_RECEIVED,
                  receiving_message :=
                    Some ((new_ReceivingMessage (clk k))
                           \<lparr>dst_address := Some dst, src_address := Some src,
                            transaction_id := Some tid, length_rx := Some len,
                            crc := Some (dst XOR src XOR len)\<rparr>)\<rparr>)"
  using assms
  by (auto simp add: process_byte_def MAX_MESSAGE_LEN_def)


lemma pb_pair:
  assumes "receiver_state s = STX_RECEIVED" "receiving_message s = Some r"
    "is_first_nibble r" "crc r = Some c" "is_byte p"
  shows "feed clk k [enc_hi p, enc_lo p] s =
           Inr (s\<lparr>receiving_message :=
                   Some (r\<lparr>is_first_nibble := True, incoming := p,
                           payload_buffer := payload_buffer r @ [p],
                           crc := Some (c XOR p)\<rparr>)\<rparr>)"
  using assms
  by (simp add: process_byte_def enc_hi_valid enc_lo_valid decode_encode)


lemma encode_payload_Cons:
  "encode_payload (p # ps) = [enc_hi p, enc_lo p] @ encode_payload ps"
  by (simp add: encode_payload_def)

lemma feed_payload:
  assumes "receiver_state s = STX_RECEIVED" "receiving_message s = Some r"
    "is_first_nibble r" "crc r = Some c" "list_all is_byte ps"
  shows "feed clk k (encode_payload ps) s =
           Inr (s\<lparr>receiving_message :=
                   Some (r\<lparr>is_first_nibble := True, incoming := last (incoming r # ps),
                           payload_buffer := payload_buffer r @ ps,
                           crc := Some (fold (\<lambda>p c. c XOR p) ps c)\<rparr>)\<rparr>)"
  using assms
proof (induction ps arbitrary: s r c k)
  case Nil
  have "r\<lparr>is_first_nibble := True, incoming := incoming r,
              payload_buffer := payload_buffer r, crc := Some c\<rparr> = r"
    using Nil by (cases r) simp
  moreover have "s\<lparr>receiving_message := Some r\<rparr> = s"
    using Nil by (cases s) simp
  ultimately show ?case by (simp add: encode_payload_def)
next
  case (Cons p ps)
  define r1 where "r1 = r\<lparr>is_first_nibble := True, incoming := p,
              payload_buffer := payload_buffer r @ [p], crc := Some (c XOR p)\<rparr>"
  define s1 where "s1 = s\<lparr>receiving_message := Some r1\<rparr>"
  have pair: "feed clk k [enc_hi p, enc_lo p] s = Inr s1"
    unfolding s1_def r1_def
    by (rule pb_pair) (use Cons.prems in simp_all)
  have st: "receiver_state s1 = STX_RECEIVED" "receiving_message s1 = Some r1"
    "is_first_nibble r1" "crc r1 = Some (c XOR p)" "list_all is_byte ps"
    using Cons.prems by (simp_all add: s1_def r1_def)
  have rest: "feed clk (k + 2) (encode_payload ps) s1 =
           Inr (s1\<lparr>receiving_message :=
                   Some (r1\<lparr>is_first_nibble := True, incoming := last (incoming r1 # ps),
                           payload_buffer := payload_buffer r1 @ ps,
                           crc := Some (fold (\<lambda>p c. c XOR p) ps (c XOR p))\<rparr>)\<rparr>)"
    by (rule Cons.IH [OF st])
  have "feed clk k (encode_payload (p # ps)) s = feed clk (k + 2) (encode_payload ps) s1"
    by (simp only: encode_payload_Cons feed_append pair sum.case list.size) simp
  also note rest
  finally show ?case
    by (simp add: s1_def r1_def)
qed


lemma control_not_valid:
  "\<not> is_valid_encoded_byte ETX" "\<not> is_valid_encoded_byte EOT" "\<not> is_valid_encoded_byte LF"
  "\<not> is_valid_encoded_byte SOH" "\<not> is_valid_encoded_byte STX" "\<not> is_valid_encoded_byte NULL"
  using valid_not_control by blast+

lemma feed_trailer:
  assumes "receiver_state s = STX_RECEIVED" "receiving_message s = Some r"
    "length_rx r = Some (int (length (payload_buffer r)))" "crc r = Some c"
  shows "feed clk k [ETX, c, EOT] s =
           Inr (reset_receiver
                 (s\<lparr>received_messages := received_messages s @
                      [\<lparr> src_address_m = src_address r, dest_address = dst_address r,
                         transaction_id_m = transaction_id r, length_m = length_rx r,
                         payload_m = payload_buffer r \<rparr>]\<rparr>))"
  using assms
  by (simp add: process_byte_def control_not_valid reset_receiver_def)

lemma wire_frame_split:
  "wire_frame src dst tid ps =
     [LF, LF, LF] @ [SOH, dst, src, tid, int (length ps), STX] @ encode_payload ps
       @ [ETX, checksum src dst ps, EOT] @ [LF, LF]"
  by (simp add: wire_frame_def)

lemma feed_wire_frame:
  assumes "receiver_state s = IDLE" "dst = address s \<or> dst = BROADCAST_ADDRESS"
    "ps \<noteq> []" "length ps \<le> 255" "list_all is_byte ps"
  shows "feed clk k (wire_frame src dst tid ps) s =
           Inr (reset_receiver
                 (s\<lparr>received_messages := received_messages s @
                      [\<lparr> src_address_m = Some src, dest_address = Some dst,
                         transaction_id_m = Some tid, length_m = Some (int (length ps)),
                         payload_m = ps \<rparr>]\<rparr>))"
proof -
  define r0 where "r0 t = (new_ReceivingMessage t)
                           \<lparr>dst_address := Some dst, src_address := Some src,
                            transaction_id := Some tid, length_rx := Some (int (length ps)),
                            crc := Some (dst XOR src XOR int (length ps))\<rparr>" for t
  define s0 where "s0 t = s\<lparr>receiver_state := STX_RECEIVED, receiving_message := Some (r0 t)\<rparr>"
    for t
  define r1 where "r1 t = (r0 t)\<lparr>is_first_nibble := True, incoming := last (incoming (r0 t) # ps),
                           payload_buffer := payload_buffer (r0 t) @ ps,
                           crc := Some (fold (\<lambda>p c. c XOR p) ps (dst XOR src XOR int (length ps)))\<rparr>"
    for t
  define s1 where "s1 t = (s0 t)\<lparr>receiving_message := Some (r1 t)\<rparr>" for t
  define s2 where "s2 = reset_receiver
                 (s\<lparr>received_messages := received_messages s @
                      [\<lparr> src_address_m = Some src, dest_address = Some dst,
                         transaction_id_m = Some tid, length_m = Some (int (length ps)),
                         payload_m = ps \<rparr>]\<rparr>)"
  have a: "feed clk j [LF, LF, LF] s = Inr s" for j
    using assms(1) by (intro feed_idle_skip) (simp_all add: LF_def SOH_def)
  have b: "feed clk j [SOH, dst, src, tid, int (length ps), STX] s = Inr (s0 (clk j))" for j
    unfolding s0_def r0_def using assms by (intro feed_header) auto
  have c: "feed clk j (encode_payload ps) (s0 t) = Inr (s1 t)" for j t
    unfolding s1_def r1_def
    by (rule feed_payload) (simp_all add: s0_def r0_def new_ReceivingMessage_def assms)
  have "feed clk j [ETX, checksum src dst ps, EOT] (s1 t) =
          Inr (reset_receiver
                 ((s1 t)\<lparr>received_messages := received_messages (s1 t) @
                      [\<lparr> src_address_m = src_address (r1 t), dest_address = dst_address (r1 t),
                         transaction_id_m = transaction_id (r1 t), length_m = length_rx (r1 t),
                         payload_m = payload_buffer (r1 t) \<rparr>]\<rparr>))" for j t
    by (rule feed_trailer)
       (simp_all add: s1_def r1_def s0_def r0_def new_ReceivingMessage_def checksum_def
         xor.commute xor.left_commute)
  then have d: "feed clk j [ETX, checksum src dst ps, EOT] (s1 t) = Inr s2" for j t
    by (simp add: s2_def s1_def r1_def s0_def r0_def new_ReceivingMessage_def reset_receiver_def)
  have e: "feed clk j [LF, LF] s2 = Inr s2" for j
    by (intro feed_idle_skip) (simp_all add: s2_def reset_receiver_def LF_def SOH_def)
  have "feed clk k (wire_frame src dst tid ps) s = Inr s2"
    by (simp only: wire_frame_split feed_append a b c d e sum.case)
  then show ?thesis
    by (simp add: s2_def)
qed


lemma send_message_Inr:
  assumes "send_message s dst p tid = Inr (ok, s')"
  shows "p \<noteq> [] \<and> length p \<le> 255 \<and> is_byte dst \<and> is_byte tid \<and> is_byte (address s) \<and> ok
         \<and> s' = s\<lparr>output_messages := output_messages s @ [wire_frame (address s) dst tid p]\<rparr>"
  using assms
  by (auto simp add: send_message_def Let_def MAX_MESSAGE_LEN_def bytes1_def is_byte_def
      encode_loop_eq wire_frame_def checksum_def numeral_3_eq_3 numeral_2_eq_2
      split: if_splits)

text \<open>
  C1: take any frame that \<open>send_message\<close> has queued (so the payload has 1 to 255 bytes),
  with every payload byte a value in 0..255, the control-marker values included, and
  addressed to the current address of a node whose receiver is idle.  Feeding the frame to
  that node byte by byte appends exactly one \<open>ReceivedMessage\<close>, with the sender's address,
  the destination, the transaction id, the length and the payload given to the encoder,
  and leaves the receiver idle again.
\<close>

theorem round_trip:
  assumes "send_message sender dst payload tid = Inr (ok, sender')"
    and "list_all is_byte payload"
    and "dst = address node"
    and "receiver_state node = IDLE"
  shows "feed clk k (last (output_messages sender')) node =
           Inr (reset_receiver
                 (node\<lparr>received_messages := received_messages node @
                      [\<lparr> src_address_m = Some (address sender), dest_address = Some dst,
                         transaction_id_m = Some tid, length_m = Some (int (length payload)),
                         payload_m = payload \<rparr>]\<rparr>))"
proof -
  from send_message_Inr [OF assms(1)]
  have p: "payload \<noteq> []" "length payload \<le> 255"
    and fr: "last (output_messages sender') = wire_frame (address sender) dst tid payload"
    by simp_all
  show ?thesis
    unfolding fr using assms(2,3,4) p by (intro feed_wire_frame) simp_all
qed

lemma not_mask4_and_240: "NOT (mask 4) AND 240 = (240::int)"
  unfolding m240 by (rule bit_eqI) (auto simp add: bit_simps)

theorem round_trip_witness:
  "send_message (node5\<lparr>address := 0\<rparr>) 5 [0, 1, 2, 3, 4, 10, 255] 7 =
     Inr (True, node5\<lparr>address := 0, output_messages :=
            [[10, 10, 10, 1, 5, 0, 7, 7, 2, 15, 240, 15, 225, 15, 210, 15, 195, 15, 180,
              15, 90, 240, 15, 3, 243, 4, 10, 10]]\<rparr>)
   \<and> feed (\<lambda>k. 0) 0 [10, 10, 10, 1, 5, 0, 7, 7, 2, 15, 240, 15, 225, 15, 210, 15, 195, 15, 180,
              15, 90, 240, 15, 3, 243, 4, 10, 10] node5 =
     Inr (node5\<lparr>received_messages :=
            [\<lparr> src_address_m = Some 0, dest_address = Some 5, transaction_id_m = Some 7,
               length_m = Some 7, payload_m = [0, 1, 2, 3, 4, 10, 255] \<rparr>]\<rparr>)"
proof -
  have enc: "send_message (node5\<lparr>address := 0\<rparr>) 5 [0, 1, 2, 3, 4, 10, 255] 7 =
     Inr (True, node5\<lparr>address := 0, output_messages :=
            [[10, 10, 10, 1, 5, 0, 7, 7, 2, 15, 240, 15, 225, 15, 210, 15, 195, 15, 180,
              15, 90, 240, 15, 3, 243, 4, 10, 10]]\<rparr>)"
    by (simp add: send_message_def Let_def MAX_MESSAGE_LEN_def bytes1_def enc_hi_def enc_lo_def
        node5_def LF_def SOH_def STX_def ETX_def EOT_def numeral_3_eq_3 numeral_2_eq_2
        not_mask4_and_240)
  have b: "list_all is_byte [0, 1, 2, 3, 4, 10, 255]" by (simp add: is_byte_def)
  have a: "(5::int) = address node5" by (simp add: node5_def)
  have i: "receiver_state node5 = IDLE" by (simp add: node5_def)
  show ?thesis
    using round_trip [OF enc b a i, of "\<lambda>k. 0" 0] enc
    by (simp add: node5_def reset_receiver_def)
qed

section \<open>A dangling nibble\<close>

text \<open>
  At the end-of-body marker \<open>process_byte\<close> compares the number of assembled payload bytes
  with the declared length; the flag \<open>is_first_nibble\<close> plays no part.
\<close>

lemma etx_ignores_half_byte:
  assumes "receiver_state s = STX_RECEIVED" "receiving_message s = Some r"
  shows "process_byte now ETX s =
           (if Some (int (length (payload_buffer r))) = length_rx r
            then Inr (s\<lparr>receiver_state := ETX_RECEIVED\<rparr>) else Inr (reset_receiver s))"
  using assms by (simp add: process_byte_def control_not_valid)

text \<open>
  C10: there is a frame whose body holds an odd number of valid nibble-encoded bytes that the
  receiver accepts.  With declared length 1 and the body \<open>4B E1 4B\<close>, the third byte leaves
  a half-assembled byte pending (\<open>is_first_nibble\<close> is false, \<open>incoming\<close> is \<open>0x40\<close>) when
  the end-of-body marker arrives; the length check sees one assembled byte, and the frame
  is delivered as a message with payload \<open>41\<close>.
\<close>

theorem dangling_nibble_accepted:
  "list_all is_valid_encoded_byte [75, 225, 75] \<and> odd (length [75, 225, 75 :: int])
   \<and> feed (\<lambda>k. 0) 0 ([SOH, 5, 0, 7, 1, STX] @ [75, 225, 75]) node5 =
       Inr (node5\<lparr>receiver_state := STX_RECEIVED,
                  receiving_message :=
                    Some \<lparr> timestamp = 0, dst_address = Some 5, src_address = Some 0,
                           transaction_id = Some 7, length_rx = Some 1, crc = Some 69,
                           is_first_nibble = False, incoming = 64, payload_buffer = [65] \<rparr>\<rparr>)
   \<and> feed (\<lambda>k. 0) 0 ([SOH, 5, 0, 7, 1, STX] @ [75, 225, 75] @ [ETX, 69, EOT]) node5 =
       Inr (node5\<lparr>received_messages :=
              [\<lparr> src_address_m = Some 0, dest_address = Some 5, transaction_id_m = Some 7,
                 length_m = Some 1, payload_m = [65] \<rparr>]\<rparr>)"
  by (simp add: process_byte_def is_valid_encoded_byte_def node5_def new_ReceivingMessage_def
      reset_receiver_def SOH_def STX_def ETX_def EOT_def MAX_MESSAGE_LEN_def BROADCAST_ADDRESS_def)

section \<open>The receiver invariant\<close>

lemma state_number_0 [simp]: "state_number st = 0 \<longleftrightarrow> st = IDLE"
  by (cases st) simp_all

lemma engine_ok_idle_iff: "engine_ok s \<Longrightarrow> receiver_state s = IDLE \<longleftrightarrow> receiving_message s = None"
  by (auto simp add: engine_ok_def Let_def split: option.splits)

lemma process_byte_ok:
  assumes "engine_ok s"
  shows "\<exists>s'. process_byte now b s = Inr s' \<and> engine_ok s'
            \<and> address s' = address s \<and> output_messages s' = output_messages s"
proof (cases "receiver_state s")
  case IDLE
  with assms show ?thesis
    by (auto simp add: process_byte_def engine_ok_def new_ReceivingMessage_def)
next
  case SOH_RECEIVED
  with assms show ?thesis
    by (auto simp add: process_byte_def engine_ok_def reset_receiver_def Let_def split: option.splits)
next
  case DEST_ADDRESS_RECEIVED
  with assms show ?thesis
    by (auto simp add: process_byte_def engine_ok_def reset_receiver_def Let_def split: option.splits)
next
  case SRC_ADDRESS_RECEIVED
  with assms show ?thesis
    by (auto simp add: process_byte_def engine_ok_def reset_receiver_def Let_def split: option.splits)
next
  case TRANSACTION_ID_RECEIVED
  with assms show ?thesis
    by (auto simp add: process_byte_def engine_ok_def reset_receiver_def Let_def split: option.splits)
next
  case MESSAGE_LEN_RECEIVED
  with assms show ?thesis
    by (auto simp add: process_byte_def engine_ok_def reset_receiver_def Let_def split: option.splits)
next
  case STX_RECEIVED
  with assms show ?thesis
    by (auto simp add: process_byte_def engine_ok_def reset_receiver_def Let_def split: option.splits)
next
  case ETX_RECEIVED
  with assms show ?thesis
    by (auto simp add: process_byte_def engine_ok_def reset_receiver_def Let_def split: option.splits)
next
  case CRC_OK
  with assms show ?thesis
    by (auto simp add: process_byte_def engine_ok_def reset_receiver_def Let_def split: option.splits)
qed


lemma engine_ok_cong:
  "receiver_state s' = receiver_state s \<Longrightarrow> receiving_message s' = receiving_message s \<Longrightarrow>
     engine_ok s' = engine_ok s"
  by (simp add: engine_ok_def Let_def split: option.splits)

lemma receive_ok:
  assumes "engine_ok s"
  shows "\<exists>s'. receive es s = Inr s' \<and> engine_ok s'"
  using assms
proof (induction es arbitrary: s)
  case Nil
  then show ?case by simp
next
  case (Cons e es)
  from Cons.IH [OF Cons.prems] obtain s0 where skip: "receive es s = Inr s0" "engine_ok s0"
    by blast
  show ?case
  proof (cases "read_result e")
    case None
    then have "receive (e # es) s = receive es s" by simp
    with skip show ?thesis by simp
  next
    case (Some byte)
    show ?thesis
    proof (cases "byte = NULL \<and> receiver_state s = IDLE")
      case True
      with Some have "receive (e # es) s = receive es s" by simp
      with skip show ?thesis by simp
    next
      case False
      have "engine_ok (s\<lparr>last_bus_activity := now_read e\<rparr>)"
        by (rule engine_ok_cong [THEN iffD2, OF _ _ Cons.prems]) simp_all
      from process_byte_ok [OF this, of "now_soh e" byte]
      obtain s1 where p: "process_byte (now_soh e) byte (s\<lparr>last_bus_activity := now_read e\<rparr>) = Inr s1"
        and ok: "engine_ok s1" by blast
      from Cons.IH [OF ok] obtain s' where r: "receive es s1 = Inr s'" "engine_ok s'" by blast
      from Some False p have "receive (e # es) s = receive es s1" by auto
      with r show ?thesis by simp
    qed
  qed
qed

lemma transmit_ok:
  assumes "engine_ok s" "transmit e s = Some (ok, s', evs)"
  shows "engine_ok s'"
proof -
  have "receiver_state s' = receiver_state s \<and> receiving_message s' = receiving_message s"
    using assms(2)
    by (auto simp add: transmit_def Let_def
        split: list.splits if_splits Option.bind_splits option.splits)
  then show ?thesis by (intro engine_ok_cong [THEN iffD2, OF _ _ assms(1)]) simp_all
qed

lemma reset_receiver_ok: "engine_ok (reset_receiver s)"
  by (simp add: engine_ok_def reset_receiver_def)

lemma loop_ok:
  assumes "engine_ok s" "loop e s = Some res"
  shows "\<exists>s' evs. res = Inr (s', evs) \<and> engine_ok s'"
proof -
  from receive_ok [OF assms(1), of "rx e"] obtain s1 where
    r: "receive (rx e) s = Inr s1" and ok1: "engine_ok s1" by blast
  from assms(2) r obtain ok s2 evs where t: "transmit (tx e) s1 = Some (ok, s2, evs)"
    by (auto simp add: loop_def split: Option.bind_splits)
  have ok2: "engine_ok s2" by (rule transmit_ok [OF ok1 t])
  show ?thesis
  proof (cases "receiving_message s2")
    case None
    with ok2 have "receiver_state s2 = IDLE" by (simp add: engine_ok_idle_iff)
    with assms(2) r t ok2 show ?thesis by (auto simp add: loop_def)
  next
    case (Some r2)
    with assms(2) r t ok2 show ?thesis
      by (auto simp add: loop_def reset_receiver_ok split: if_splits)
  qed
qed

lemma send_message_ok:
  assumes "send_message s dst payload tid = Inr (ok, s')" "engine_ok s"
  shows "engine_ok s'"
  using send_message_Inr [OF assms(1)]
  by (intro engine_ok_cong [THEN iffD2, OF _ _ assms(2)]) simp_all

lemma reachable_ok: "reachable s \<Longrightarrow> engine_ok s"
proof (induction rule: reachable.induct)
  case (init baudrate addr toggle_ms now s)
  then show ?case by (auto simp add: new_engine_def engine_ok_def split: if_splits)
next
  case (tick s e s' evs)
  from loop_ok [OF tick.IH tick.hyps(2)] show ?case by simp
next
  case (send s dst payload tid ok s')
  then show ?case by (simp add: send_message_ok)
next
  case (reply s m payload allow ok s')
  from reply.hyps(2) obtain src tid where "send_message s src payload tid = Inr (ok, s')"
    by (auto simp add: respond_def split: if_splits option.splits)
  with reply.IH show ?case by (simp add: send_message_ok)
next
  case (read s m s')
  from read.hyps(2) have "receiver_state s' = receiver_state s"
    "receiving_message s' = receiving_message s"
    by (auto simp add: read_def split: list.splits)
  then show ?case by (rule engine_ok_cong [THEN iffD2, OF _ _ read.IH])
next
  case (readdress s a s')
  from readdress.hyps(2) have "receiver_state s' = receiver_state s"
    "receiving_message s' = receiving_message s"
    by (auto simp add: set_address_def split: if_splits)
  then show ?case by (rule engine_ok_cong [THEN iffD2, OF _ _ readdress.IH])
qed

text \<open>
  C9: in every state reachable from \<^verbatim>\<open>__init__\<close> through service ticks and public calls, the
  receiver state is \<open>IDLE\<close> exactly when there is no reception in progress.  Hence no
  service tick started in such a state raises: in particular the packet-timeout check,
  which reads the timestamp of the reception whenever the state is not \<open>IDLE\<close>, never
  finds the reception missing (the \<^verbatim>\<open>AttributeError\<close> branch of \<open>loop\<close>).
\<close>

theorem idle_iff_no_reception:
  assumes "reachable s"
  shows "(receiver_state s = IDLE \<longleftrightarrow> receiving_message s = None)
         \<and> loop e s \<noteq> Some (Inl x)"
proof
  from assms have ok: "engine_ok s" by (rule reachable_ok)
  then show "receiver_state s = IDLE \<longleftrightarrow> receiving_message s = None"
    by (rule engine_ok_idle_iff)
  show "loop e s \<noteq> Some (Inl x)"
    using loop_ok [OF ok, of e "Inl x"] by auto
qed


lemma node5_mid_reachable: "reachable node5_mid"
proof -
  have "new_engine 9600 5 20 0 = Inr node5"
    by (simp add: new_engine_def node5_def is_valid_node_address_def FIRST_NODE_ADDRESS_def
        LAST_NODE_ADDRESS_def BROADCAST_ADDRESS_def)
  then have r: "reachable node5" by (rule reachable.init)
  have "loop tick_soh_dst node5 = Some (Inr (node5_mid, []))"
    by (simp add: loop_def tick_soh_dst_def node5_def node5_mid_def process_byte_def
        transmit_def SOH_def NULL_def ticks_diff_def TICKS_PERIOD_def PACKET_TIMEOUT_MS_def
        new_ReceivingMessage_def BROADCAST_ADDRESS_def)
  with r show ?thesis by (rule reachable.tick)
qed

theorem idle_iff_no_reception_witness:
  "reachable node5_mid
   \<and> (receiver_state node5_mid = IDLE \<longleftrightarrow> receiving_message node5_mid = None)
   \<and> loop tick_soh_dst node5_mid \<noteq> Some (Inl AttributeError)"
  using idle_iff_no_reception [OF node5_mid_reachable, of tick_soh_dst AttributeError]
    node5_mid_reachable
  by simp

section \<open>Byte sequences that deliver nothing\<close>

lemma process_byte_step:
  assumes "engine_ok s"
  shows "\<exists>s'. process_byte now b s = Inr s' \<and> engine_ok s'
            \<and> bytes_needed s \<le> Suc (bytes_needed s')
            \<and> (1 < bytes_needed s \<longrightarrow> received_messages s' = received_messages s)"
proof (cases "receiver_state s")
  case IDLE
  with assms show ?thesis
    by (auto simp add: process_byte_def engine_ok_def new_ReceivingMessage_def bytes_needed_def)
next
  case SOH_RECEIVED
  with assms show ?thesis
    by (auto simp add: process_byte_def engine_ok_def reset_receiver_def Let_def bytes_needed_def
        split: option.splits)
next
  case DEST_ADDRESS_RECEIVED
  with assms show ?thesis
    by (auto simp add: process_byte_def engine_ok_def reset_receiver_def Let_def bytes_needed_def
        split: option.splits)
next
  case SRC_ADDRESS_RECEIVED
  with assms show ?thesis
    by (auto simp add: process_byte_def engine_ok_def reset_receiver_def Let_def bytes_needed_def
        split: option.splits)
next
  case TRANSACTION_ID_RECEIVED
  with assms show ?thesis
    by (auto simp add: process_byte_def engine_ok_def reset_receiver_def Let_def bytes_needed_def
        split: option.splits)
next
  case MESSAGE_LEN_RECEIVED
  with assms show ?thesis
    by (auto simp add: process_byte_def engine_ok_def reset_receiver_def Let_def bytes_needed_def
        split: option.splits)
next
  case STX_RECEIVED
  with assms show ?thesis
    by (auto simp add: process_byte_def engine_ok_def reset_receiver_def Let_def bytes_needed_def
        split: option.splits)
next
  case ETX_RECEIVED
  with assms show ?thesis
    by (auto simp add: process_byte_def engine_ok_def reset_receiver_def Let_def bytes_needed_def
        split: option.splits)
next
  case CRC_OK
  with assms show ?thesis
    by (auto simp add: process_byte_def engine_ok_def reset_receiver_def Let_def bytes_needed_def
        split: option.splits)
qed


lemma feed_short:
  assumes "engine_ok s" "length bs < bytes_needed s"
  shows "\<exists>s'. feed clk k bs s = Inr s' \<and> engine_ok s'
            \<and> received_messages s' = received_messages s
            \<and> bytes_needed s \<le> bytes_needed s' + length bs"
  using assms
proof (induction bs arbitrary: s k)
  case Nil
  then show ?case by simp
next
  case (Cons b bs)
  from process_byte_step [OF Cons.prems(1), of "clk k" b] Cons.prems(2)
  obtain s1 where p: "process_byte (clk k) b s = Inr s1" and ok: "engine_ok s1"
    and d: "bytes_needed s \<le> Suc (bytes_needed s1)"
    and m: "received_messages s1 = received_messages s"
    by auto
  from d Cons.prems(2) have "length bs < bytes_needed s1" by simp
  from Cons.IH [OF ok this, of "Suc k"] obtain s' where
    "feed clk (Suc k) bs s1 = Inr s'" "engine_ok s'"
    "received_messages s' = received_messages s1"
    "bytes_needed s1 \<le> bytes_needed s' + length bs"
    by blast
  with p m d show ?case by simp
qed

lemma valid_byte_keeps_header:
  assumes "engine_ok s" "6 \<le> bytes_needed s" "is_valid_encoded_byte b"
  shows "\<exists>s'. process_byte now b s = Inr s' \<and> engine_ok s' \<and> 6 \<le> bytes_needed s'
            \<and> received_messages s' = received_messages s"
proof -
  from process_byte_step [OF assms(1), of now b] assms(2)
  obtain s' where p: "process_byte now b s = Inr s'" and ok: "engine_ok s'"
    and m: "received_messages s' = received_messages s"
    by auto
  have "receiver_state s' \<noteq> STX_RECEIVED"
    using assms(2,3) p valid_not_control [of b]
    by (auto simp add: process_byte_def bytes_needed_def reset_receiver_def
        split: ReceiverState.splits option.splits if_splits)
  moreover have "receiver_state s' \<noteq> ETX_RECEIVED \<and> receiver_state s' \<noteq> CRC_OK"
    using assms(2) p
    by (auto simp add: process_byte_def bytes_needed_def reset_receiver_def
        split: ReceiverState.splits option.splits if_splits)
  ultimately have "6 \<le> bytes_needed s'"
    by (cases "receiver_state s'") (simp_all add: bytes_needed_def)
  with p ok m show ?thesis by simp
qed

lemma feed_valid_keeps_header:
  assumes "engine_ok s" "6 \<le> bytes_needed s" "list_all is_valid_encoded_byte bs"
  shows "\<exists>s'. feed clk k bs s = Inr s' \<and> engine_ok s' \<and> 6 \<le> bytes_needed s'
            \<and> received_messages s' = received_messages s"
  using assms
proof (induction bs arbitrary: s k)
  case Nil
  then show ?case by simp
next
  case (Cons b bs)
  from valid_byte_keeps_header [OF Cons.prems(1,2), of b "clk k"] Cons.prems(3)
  obtain s1 where p: "process_byte (clk k) b s = Inr s1" and ok: "engine_ok s1"
    and d: "6 \<le> bytes_needed s1" and m: "received_messages s1 = received_messages s"
    by auto
  from Cons.prems(3) have "list_all is_valid_encoded_byte bs" by simp
  from Cons.IH [OF ok d this, of "Suc k"] obtain s' where
    "feed clk (Suc k) bs s1 = Inr s'" "engine_ok s'" "6 \<le> bytes_needed s'"
    "received_messages s' = received_messages s1"
    by blast
  with p m show ?case by simp
qed

text \<open>
  From \<open>IDLE\<close>, at most five arbitrary bytes, then any run of bytes that pass the
  nibble-complement test, then at most five more bytes deliver nothing: the first five
  cannot get past the length byte, a valid wire byte is never the body marker, and the
  last five are too few.
\<close>

lemma feed_resync_silent:
  assumes "engine_ok s" "receiver_state s = IDLE" "length hs \<le> 5"
    "list_all is_valid_encoded_byte es" "length ts \<le> 5"
  shows "\<exists>s'. feed clk k (hs @ es @ ts) s = Inr s' \<and> engine_ok s'
            \<and> received_messages s' = received_messages s"
proof -
  have "bytes_needed s = 11" using assms(2) by (simp add: bytes_needed_def)
  with feed_short [OF assms(1), of hs clk k] assms(3)
  obtain s1 where 1: "feed clk k hs s = Inr s1" "engine_ok s1"
    "received_messages s1 = received_messages s" "6 \<le> bytes_needed s1"
    by auto
  from feed_valid_keeps_header [OF 1(2) 1(4) assms(4), of clk "k + length hs"]
  obtain s2 where 2: "feed clk (k + length hs) es s1 = Inr s2" "engine_ok s2"
    "6 \<le> bytes_needed s2" "received_messages s2 = received_messages s1"
    by blast
  from feed_short [OF 2(2), of ts clk "k + length hs + length es"] assms(5) 2(3)
  obtain s3 where 3: "feed clk (k + length hs + length es) ts s2 = Inr s3" "engine_ok s3"
    "received_messages s3 = received_messages s2"
    by auto
  show ?thesis
    using 1 2 3 by (simp add: feed_append)
qed

section \<open>Destination filtering\<close>

lemma encode_payload_valid: "list_all is_valid_encoded_byte (encode_payload ps)"
  by (induction ps) (simp_all add: encode_payload_def enc_hi_valid enc_lo_valid)

text \<open>
  C3: in the state after the start-of-frame marker, a destination byte equal to the node's
  current address or to the broadcast address 255 is stored and the reception goes on to
  the next state.  Any other value drops the reception and returns the receiver to
  \<open>IDLE\<close>; and whatever follows that byte in a frame of the wire layout (source,
  transaction id, length, body marker, encoded payload, end marker, checksum, terminator
  and fillers), the receiver adds no entry to the inbound queue for the frame.
\<close>

theorem destination_filter:
  assumes "receiver_state s = SOH_RECEIVED" and "receiving_message s = Some r"
  shows "(byte = address s \<or> byte = BROADCAST_ADDRESS \<longrightarrow>
            process_byte now byte s =
              Inr (s\<lparr>receiving_message := Some (r\<lparr>dst_address := Some byte\<rparr>),
                     receiver_state := DEST_ADDRESS_RECEIVED\<rparr>))
       \<and> (byte \<noteq> address s \<and> byte \<noteq> BROADCAST_ADDRESS \<longrightarrow>
            process_byte now byte s = Inr (s\<lparr>receiver_state := IDLE, receiving_message := None\<rparr>)
            \<and> (\<forall>src tid ps c. \<exists>s'.
                  feed clk k (byte # [src, tid, int (length ps), STX] @ encode_payload ps
                                @ [ETX, c, EOT, LF, LF]) s = Inr s'
                  \<and> received_messages s' = received_messages s))"
proof (intro conjI impI allI)
  assume "byte = address s \<or> byte = BROADCAST_ADDRESS"
  with assms show "process_byte now byte s =
              Inr (s\<lparr>receiving_message := Some (r\<lparr>dst_address := Some byte\<rparr>),
                     receiver_state := DEST_ADDRESS_RECEIVED\<rparr>)"
    by (auto simp add: process_byte_def)
next
  assume other: "byte \<noteq> address s \<and> byte \<noteq> BROADCAST_ADDRESS"
  with assms show "process_byte now byte s =
      Inr (s\<lparr>receiver_state := IDLE, receiving_message := None\<rparr>)"
    by (simp add: process_byte_def reset_receiver_def)
next
  fix src tid ps c
  assume other: "byte \<noteq> address s \<and> byte \<noteq> BROADCAST_ADDRESS"
  with assms have p: "process_byte (clk k) byte s = Inr (reset_receiver s)"
    by (simp add: process_byte_def)
  have "\<exists>s'. feed clk (Suc k) ([src, tid, int (length ps), STX] @ encode_payload ps
                                @ [ETX, c, EOT, LF, LF]) (reset_receiver s) = Inr s'
          \<and> engine_ok s' \<and> received_messages s' = received_messages (reset_receiver s)"
    by (rule feed_resync_silent)
       (simp_all add: reset_receiver_ok encode_payload_valid, simp add: reset_receiver_def)
  then show "\<exists>s'. feed clk k (byte # [src, tid, int (length ps), STX] @ encode_payload ps
                                @ [ETX, c, EOT, LF, LF]) s = Inr s'
                  \<and> received_messages s' = received_messages s"
    using p by (auto simp add: reset_receiver_def)
qed


theorem destination_filter_witness:
  "receiver_state node5_soh = SOH_RECEIVED
   \<and> process_byte 0 5 node5_soh =
       Inr (node5_soh\<lparr>receiving_message :=
                         Some ((new_ReceivingMessage 3)\<lparr>dst_address := Some 5\<rparr>),
                       receiver_state := DEST_ADDRESS_RECEIVED\<rparr>)
   \<and> process_byte 0 255 node5_soh =
       Inr (node5_soh\<lparr>receiving_message :=
                         Some ((new_ReceivingMessage 3)\<lparr>dst_address := Some 255\<rparr>),
                       receiver_state := DEST_ADDRESS_RECEIVED\<rparr>)
   \<and> process_byte 0 9 node5_soh = Inr node5
   \<and> (\<exists>s'. feed (\<lambda>k. 0) 0 (9 # [0, 7, int (length [65 :: int]), STX] @ encode_payload [65]
                               @ [ETX, 73, EOT, LF, LF]) node5_soh = Inr s'
          \<and> received_messages s' = [])"
proof -
  have st: "receiver_state node5_soh = SOH_RECEIVED"
    and rm: "receiving_message node5_soh = Some (new_ReceivingMessage 3)"
    by (simp_all add: node5_soh_def)
  have n: "node5_soh\<lparr>receiver_state := IDLE, receiving_message := None\<rparr> = node5"
    by (simp add: node5_soh_def node5_def)
  have m: "received_messages node5_soh = []" by (simp add: node5_soh_def node5_def)
  have a: "address node5_soh = 5" by (simp add: node5_soh_def node5_def)
  have other: "(9::int) \<noteq> address node5_soh \<and> 9 \<noteq> BROADCAST_ADDRESS"
    by (simp add: a BROADCAST_ADDRESS_def)
  from destination_filter [OF st rm, of 9 0 "\<lambda>k. 0" 0] other
  have p9: "process_byte 0 9 node5_soh = Inr node5"
    and q: "\<forall>src tid ps c. \<exists>s'.
              feed (\<lambda>k. 0) 0 (9 # [src, tid, int (length ps), STX] @ encode_payload ps
                                @ [ETX, c, EOT, LF, LF]) node5_soh = Inr s'
              \<and> received_messages s' = received_messages node5_soh"
    unfolding n by blast+
  from q have f: "\<exists>s'. feed (\<lambda>k. 0) 0 (9 # [0, 7, int (length [65 :: int]), STX] @ encode_payload [65]
                               @ [ETX, 73, EOT, LF, LF]) node5_soh = Inr s'
          \<and> received_messages s' = []"
    unfolding m by blast
  from destination_filter [OF st rm, of 5 0 "\<lambda>k. 0" 0]
  have p5: "process_byte 0 5 node5_soh =
       Inr (node5_soh\<lparr>receiving_message :=
                         Some ((new_ReceivingMessage 3)\<lparr>dst_address := Some 5\<rparr>),
                       receiver_state := DEST_ADDRESS_RECEIVED\<rparr>)"
    by (simp add: a)
  from destination_filter [OF st rm, of 255 0 "\<lambda>k. 0" 0]
  have p255: "process_byte 0 255 node5_soh =
       Inr (node5_soh\<lparr>receiving_message :=
                         Some ((new_ReceivingMessage 3)\<lparr>dst_address := Some 255\<rparr>),
                       receiver_state := DEST_ADDRESS_RECEIVED\<rparr>)"
    by (simp add: BROADCAST_ADDRESS_def)
  from st p5 p255 p9 f show ?thesis by blast
qed

section \<open>Corrupted frames\<close>

lemmas process_byte_node5_simps =
  process_byte_def is_valid_encoded_byte_def new_ReceivingMessage_def reset_receiver_def
  SOH_def STX_def ETX_def EOT_def LF_def MAX_MESSAGE_LEN_def BROADCAST_ADDRESS_def

text \<open>
  C2, as stated, fails in two ways.  The checksum is \<open>DST XOR SRC XOR LEN\<close> folded with
  the payload, so it does not cover the transaction id: the frame from node 0 to node 5
  with transaction id 7, corrupted to 8 (index 6), is delivered with transaction id 8.
  And a frame addressed to another node is parsed from \<open>IDLE\<close> again after its destination
  byte: the frame from node 1 to node 11 with transaction id 5 and sixteen zero bytes is
  ignored by node 5, but with its second wire byte (index 10) corrupted from \<open>F0\<close> to the
  body marker \<open>02\<close>, node 5 reads \<open>01 05 10 02 0F 02\<close> as a header and delivers a message
  of fifteen bytes from "node 16".
\<close>

theorem corrupted_frames_accepted:
  "wire_frame 0 5 7 [65] ! 6 = 7
   \<and> feed (\<lambda>k. 0) 0 ((wire_frame 0 5 7 [65])[6 := 8]) node5 =
       Inr (node5\<lparr>received_messages :=
              [\<lparr> src_address_m = Some 0, dest_address = Some 5, transaction_id_m = Some 8,
                 length_m = Some 1, payload_m = [65] \<rparr>]\<rparr>)
   \<and> wire_frame 1 11 5 (replicate 16 0) ! 10 = 240
   \<and> feed (\<lambda>k. 0) 0 (wire_frame 1 11 5 (replicate 16 0)) node5 = Inr node5
   \<and> feed (\<lambda>k. 0) 0 ((wire_frame 1 11 5 (replicate 16 0))[10 := 2]) node5 =
       Inr (node5\<lparr>received_messages :=
              [\<lparr> src_address_m = Some 16, dest_address = Some 5, transaction_id_m = Some 2,
                 length_m = Some 15, payload_m = replicate 15 0 \<rparr>]\<rparr>)"
  by (simp add: wire_frame_def encode_payload_def checksum_def enc_hi_def enc_lo_def node5_def
      process_byte_node5_simps numeral_eq_Suc not_mask4_and_240)

lemma reset_receiver_simps [simp]:
  "receiver_state (reset_receiver s) = IDLE"
  "receiving_message (reset_receiver s) = None"
  "received_messages (reset_receiver s) = received_messages s"
  "address (reset_receiver s) = address s"
  by (simp_all add: reset_receiver_def)

lemma feed_fillers: "receiver_state s = IDLE \<Longrightarrow> feed clk k [LF, LF, LF] s = Inr s"
  by (intro feed_idle_skip) (simp_all add: LF_def SOH_def)

lemma feed_reject:
  assumes "receiver_state s = IDLE" "d \<noteq> address s" "d \<noteq> BROADCAST_ADDRESS"
  shows "feed clk k [SOH, d] s = Inr (reset_receiver s)"
  using assms by (simp add: process_byte_def reset_receiver_def)

lemma feed_to_tid:
  assumes "receiver_state s = IDLE" "d = address s \<or> d = BROADCAST_ADDRESS"
  shows "feed clk k [SOH, d, a, t] s =
           Inr (s\<lparr>receiver_state := TRANSACTION_ID_RECEIVED,
                  receiving_message :=
                    Some ((new_ReceivingMessage (clk k))
                           \<lparr>dst_address := Some d, src_address := Some a,
                            transaction_id := Some t\<rparr>)\<rparr>)"
  using assms by (auto simp add: process_byte_def)

lemma feed_to_len:
  assumes "receiver_state s = IDLE" "d = address s \<or> d = BROADCAST_ADDRESS"
    "0 < l" "l \<le> 255"
  shows "feed clk k [SOH, d, a, t, l] s =
           Inr (s\<lparr>receiver_state := MESSAGE_LEN_RECEIVED,
                  receiving_message :=
                    Some ((new_ReceivingMessage (clk k))
                           \<lparr>dst_address := Some d, src_address := Some a,
                            transaction_id := Some t, length_rx := Some l\<rparr>)\<rparr>)"
  using assms by (auto simp add: process_byte_def MAX_MESSAGE_LEN_def)

lemma bad_length_resets:
  assumes "receiver_state s = TRANSACTION_ID_RECEIVED" "receiving_message s = Some r"
    "\<not> (0 < v \<and> v \<le> 255)"
  shows "process_byte now v s = Inr (reset_receiver s)"
  using assms by (auto simp add: process_byte_def MAX_MESSAGE_LEN_def)

lemma bad_stx_resets:
  assumes "receiver_state s = MESSAGE_LEN_RECEIVED" "v \<noteq> STX"
  shows "process_byte now v s = Inr (reset_receiver s)"
  using assms by (simp add: process_byte_def)

lemma bad_count_resets:
  assumes "receiver_state s = STX_RECEIVED" "receiving_message s = Some r"
    "Some (int (length (payload_buffer r))) \<noteq> length_rx r"
  shows "process_byte now ETX s = Inr (reset_receiver s)"
  using assms by (simp add: process_byte_def control_not_valid)

lemma bad_body_byte_resets:
  assumes "receiver_state s = STX_RECEIVED" "receiving_message s = Some r"
    "\<not> is_valid_encoded_byte v" "v \<noteq> ETX"
  shows "process_byte now v s = Inr (reset_receiver s)"
  using assms by (simp add: process_byte_def)

lemma bad_crc_resets:
  assumes "receiver_state s = STX_RECEIVED" "receiving_message s = Some r"
    "Some (int (length (payload_buffer r))) = length_rx r" "crc r = Some c'" "c \<noteq> c'"
  shows "feed clk k [ETX, c] s = Inr (reset_receiver s)"
  using assms by (simp add: process_byte_def control_not_valid reset_receiver_def)

text \<open>After a reset, a short tail or a resynchronisation delivers nothing.\<close>

lemma after_reset_short:
  assumes "length ts < 11"
  shows "\<exists>s'. feed clk k ts (reset_receiver s) = Inr s'
           \<and> received_messages s' = received_messages (reset_receiver s)"
  using feed_short [OF reset_receiver_ok, of ts s clk k] assms
  by (auto simp add: bytes_needed_def)

lemma after_reset_resync:
  assumes "length hs \<le> 5" "list_all is_valid_encoded_byte es" "length ts \<le> 5"
  shows "\<exists>s'. feed clk k (hs @ es @ ts) (reset_receiver s) = Inr s'
           \<and> received_messages s' = received_messages (reset_receiver s)"
  using feed_resync_silent [OF reset_receiver_ok _ assms, of s clk k] by auto


lemma feed_then:
  "feed clk k xs s = Inr s1 \<Longrightarrow> feed clk k (xs @ ys) s = feed clk (k + length xs) ys s1"
  by (simp add: feed_append)

lemma prefix_then_silent:
  assumes "feed clk k xs s = Inr s1" and "received_messages s1 = received_messages s"
    and "\<And>j. \<exists>s'. feed clk j ys s1 = Inr s' \<and> received_messages s' = received_messages s1"
  shows "\<exists>s'. feed clk k (xs @ ys) s = Inr s' \<and> received_messages s' = received_messages s"
  using assms(3) [of "k + length xs"] assms(1,2) by (auto simp add: feed_append)

lemma fold_xor_shift:
  "fold (\<lambda>p c. c XOR p) ps (c :: int) = c XOR fold (\<lambda>p c. c XOR p) ps 0"
proof (induction ps arbitrary: c)
  case Nil
  then show ?case by simp
next
  case (Cons p ps)
  have "fold (\<lambda>p c. c XOR p) (p # ps) c = (c XOR p) XOR fold (\<lambda>p c. c XOR p) ps 0"
    using Cons [of "c XOR p"] by simp
  also have "\<dots> = c XOR (p XOR fold (\<lambda>p c. c XOR p) ps 0)"
    by (simp add: xor.assoc)
  also have "p XOR fold (\<lambda>p c. c XOR p) ps 0 = fold (\<lambda>p c. c XOR p) (p # ps) 0"
    using Cons [of "0 XOR p"] by simp
  finally show ?case .
qed

lemma fold_xor_inj:
  "fold (\<lambda>p c. c XOR p) ps (c :: int) = fold (\<lambda>p c. c XOR p) ps c' \<longleftrightarrow> c = c'"
proof -
  have "(c XOR x = c' XOR x) \<longleftrightarrow> c = c'" for x :: int
    by (metis xor.assoc xor_self_eq xor.comm_neutral)
  then show ?thesis
    by (subst fold_xor_shift [of ps c], subst fold_xor_shift [of ps c']) simp
qed

lemma body_silent:
  assumes st: "receiver_state s0 = STX_RECEIVED" "receiving_message s0 = Some r0"
    and r0: "is_first_nibble r0" "payload_buffer r0 = []" "crc r0 = Some c0"
      "length_rx r0 = Some l"
    and ps: "list_all is_byte ps"
    and bad: "l \<noteq> int (length ps) \<or> fold (\<lambda>p c. c XOR p) ps c0 \<noteq> c"
  shows "\<exists>s'. feed clk k (encode_payload ps @ [ETX, c, EOT, LF, LF]) s0 = Inr s'
           \<and> received_messages s' = received_messages s0"
proof -
  define r1 where "r1 = r0\<lparr>is_first_nibble := True, incoming := last (incoming r0 # ps),
                           payload_buffer := payload_buffer r0 @ ps,
                           crc := Some (fold (\<lambda>p c. c XOR p) ps c0)\<rparr>"
  define s1 where "s1 = s0\<lparr>receiving_message := Some r1\<rparr>"
  have body: "feed clk k (encode_payload ps) s0 = Inr s1"
    unfolding s1_def r1_def by (rule feed_payload [OF st r0(1,3) ps])
  have s1: "receiver_state s1 = STX_RECEIVED" "receiving_message s1 = Some r1"
    "received_messages s1 = received_messages s0"
    by (simp_all add: s1_def st)
  have r1: "payload_buffer r1 = ps" "length_rx r1 = Some l"
    "crc r1 = Some (fold (\<lambda>p c. c XOR p) ps c0)"
    by (simp_all add: r1_def r0)
  show ?thesis
  proof (rule prefix_then_silent [OF body s1(3)])
    fix j
    show "\<exists>s'. feed clk j [ETX, c, EOT, LF, LF] s1 = Inr s'
            \<and> received_messages s' = received_messages s1"
    proof (cases "l = int (length ps)")
      case False
      have e: "feed clk j [ETX] s1 = Inr (reset_receiver s1)"
        using bad_count_resets [OF s1(1,2), of "clk j"] False r1 by simp
      have "\<exists>s'. feed clk j ([ETX] @ [c, EOT, LF, LF]) s1 = Inr s'
            \<and> received_messages s' = received_messages s1"
        by (rule prefix_then_silent [OF e]) (simp, rule after_reset_short, simp)
      then show ?thesis by simp
    next
      case True
      with bad have "c \<noteq> fold (\<lambda>p c. c XOR p) ps c0" by auto
      then have e: "feed clk j [ETX, c] s1 = Inr (reset_receiver s1)"
        using True r1 by (intro bad_crc_resets [OF s1(1,2)]) simp_all
      have "\<exists>s'. feed clk j ([ETX, c] @ [EOT, LF, LF]) s1 = Inr s'
            \<and> received_messages s' = received_messages s1"
        by (rule prefix_then_silent [OF e]) (simp, rule after_reset_short, simp)
      then show ?thesis by simp
    qed
  qed
qed


lemma feed_bad_len:
  assumes "receiver_state s = IDLE" "d = address s \<or> d = BROADCAST_ADDRESS"
    "\<not> (0 < l \<and> l \<le> 255)"
  shows "feed clk k [SOH, d, a, t, l] s = Inr (reset_receiver s)"
proof -
  define s4 where "s4 = s\<lparr>receiver_state := TRANSACTION_ID_RECEIVED,
                  receiving_message :=
                    Some ((new_ReceivingMessage (clk k))
                           \<lparr>dst_address := Some d, src_address := Some a,
                            transaction_id := Some t\<rparr>)\<rparr>"
  have 1: "feed clk k [SOH, d, a, t] s = Inr s4"
    unfolding s4_def by (rule feed_to_tid [OF assms(1,2)])
  have 2: "process_byte now l s4 = Inr (reset_receiver s4)" for now
    by (rule bad_length_resets [OF _ _ assms(3)]) (simp_all add: s4_def)
  have 3: "reset_receiver s4 = reset_receiver s"
    by (simp add: s4_def reset_receiver_def)
  have "feed clk k ([SOH, d, a, t] @ [l]) s = feed clk (k + length [SOH, d, a, t]) [l] s4"
    by (rule feed_then [OF 1])
  also have "\<dots> = Inr (reset_receiver s)"
    by (simp only: feed.simps 2 3 sum.case)
  finally show ?thesis by (simp only: append.simps)
qed

lemma feed_bad_stx:
  assumes "receiver_state s = IDLE" "d = address s \<or> d = BROADCAST_ADDRESS"
    "0 < l" "l \<le> 255" "h \<noteq> STX"
  shows "feed clk k [SOH, d, a, t, l, h] s = Inr (reset_receiver s)"
proof -
  define s5 where "s5 = s\<lparr>receiver_state := MESSAGE_LEN_RECEIVED,
                  receiving_message :=
                    Some ((new_ReceivingMessage (clk k))
                           \<lparr>dst_address := Some d, src_address := Some a,
                            transaction_id := Some t, length_rx := Some l\<rparr>)\<rparr>"
  have 1: "feed clk k [SOH, d, a, t, l] s = Inr s5"
    unfolding s5_def by (rule feed_to_len [OF assms(1,2,3,4)])
  have 2: "process_byte now h s5 = Inr (reset_receiver s5)" for now
    by (rule bad_stx_resets [OF _ assms(5)]) (simp add: s5_def)
  have 3: "reset_receiver s5 = reset_receiver s"
    by (simp add: s5_def reset_receiver_def)
  have "feed clk k ([SOH, d, a, t, l] @ [h]) s = feed clk (k + length [SOH, d, a, t, l]) [h] s5"
    by (rule feed_then [OF 1])
  also have "\<dots> = Inr (reset_receiver s)"
    by (simp only: feed.simps 2 3 sum.case)
  finally show ?thesis by (simp only: append.simps)
qed

lemma xor_right_cancel: "(c XOR x = c' XOR x) \<longleftrightarrow> c = c'" for x :: int
  by (metis xor.assoc xor_self_eq xor.comm_neutral)

lemma xor_header_neq:
  assumes "d XOR a \<noteq> dst XOR src"
  shows "d XOR a XOR (l::int) \<noteq> src XOR dst XOR l"
proof -
  have 1: "d XOR a XOR l = (d XOR a) XOR l" by (simp add: xor.assoc)
  have 2: "src XOR dst XOR l = (dst XOR src) XOR l" by (simp add: ac_simps)
  show ?thesis unfolding 1 2 using assms by (simp only: xor_right_cancel not_False_eq_True)
qed

lemma header_variant_silent:
  assumes idle: "receiver_state s = IDLE" "receiving_message s = None"
    and ps: "list_all is_byte ps"
    and bad: "h0 \<noteq> SOH \<or> h5 \<noteq> STX \<or> l \<noteq> int (length ps) \<or> d XOR a \<noteq> dst XOR src
              \<or> (d \<noteq> address s \<and> d \<noteq> BROADCAST_ADDRESS)"
  shows "\<exists>s'. feed clk k ([LF, LF, LF] @ [h0, d, a, t, l, h5] @ encode_payload ps
                        @ [ETX, checksum src dst ps, EOT, LF, LF]) s = Inr s'
           \<and> received_messages s' = received_messages s"
proof -
  let ?E = "encode_payload ps"
  let ?c = "checksum src dst ps"
  let ?T = "[ETX, ?c, EOT, LF, LF]"
  have ok: "engine_ok s" using idle by (simp add: engine_ok_def)
  have E: "list_all is_valid_encoded_byte ?E" by (rule encode_payload_valid)
  have fill: "feed clk k [LF, LF, LF] s = Inr s"
    using idle(1) by (rule feed_fillers)
  show ?thesis
  proof (rule prefix_then_silent [OF fill refl])
    fix j
    show "\<exists>s'. feed clk j ([h0, d, a, t, l, h5] @ ?E @ ?T) s = Inr s'
            \<and> received_messages s' = received_messages s"
    proof (cases "h0 = SOH")
      case False
      then have skip: "feed clk j [h0] s = Inr s"
        using idle(1) by (intro feed_idle_skip) simp_all
      have "\<exists>s'. feed clk j ([h0] @ [d, a, t, l, h5] @ ?E @ ?T) s = Inr s'
            \<and> received_messages s' = received_messages s"
      proof (rule prefix_then_silent [OF skip refl])
        fix i
        from feed_resync_silent [OF ok idle(1) _ E, of "[d, a, t, l, h5]" ?T clk i]
        show "\<exists>s'. feed clk i ([d, a, t, l, h5] @ ?E @ ?T) s = Inr s'
            \<and> received_messages s' = received_messages s" by auto
      qed
      then show ?thesis by simp
    next
      case soh: True
      show ?thesis
      proof (cases "d = address s \<or> d = BROADCAST_ADDRESS")
        case False
        then have rej: "feed clk j [SOH, d] s = Inr (reset_receiver s)"
          using idle(1) by (intro feed_reject) simp_all
        have "\<exists>s'. feed clk j ([SOH, d] @ [a, t, l, h5] @ ?E @ ?T) s = Inr s'
            \<and> received_messages s' = received_messages s"
          by (rule prefix_then_silent [OF rej])
             (simp, rule after_reset_resync, simp_all add: E)
        then show ?thesis using soh by simp
      next
        case dst: True
        show ?thesis
        proof (cases "0 < l \<and> l \<le> 255")
          case False
          have rej: "feed clk j [SOH, d, a, t, l] s = Inr (reset_receiver s)"
            by (rule feed_bad_len [OF idle(1) dst False])
          have "\<exists>s'. feed clk j ([SOH, d, a, t, l] @ [h5] @ ?E @ ?T) s = Inr s'
              \<and> received_messages s' = received_messages s"
            by (rule prefix_then_silent [OF rej])
               (simp, rule after_reset_resync, simp_all add: E)
          then show ?thesis using soh by simp
        next
          case len: True
          show ?thesis
          proof (cases "h5 = STX")
            case False
            have rej: "feed clk j [SOH, d, a, t, l, h5] s = Inr (reset_receiver s)"
              using len False by (intro feed_bad_stx [OF idle(1) dst]) simp_all
            have "\<exists>s'. feed clk j ([SOH, d, a, t, l, h5] @ [] @ ?E @ ?T) s = Inr s'
                \<and> received_messages s' = received_messages s"
              by (rule prefix_then_silent [OF rej])
                 (simp, rule after_reset_resync, simp_all add: E)
            then show ?thesis using soh by simp
          next
            case stx: True
            define r0 where "r0 = (new_ReceivingMessage (clk j))
                           \<lparr>dst_address := Some d, src_address := Some a,
                            transaction_id := Some t, length_rx := Some l,
                            crc := Some (d XOR a XOR l)\<rparr>"
            define s0 where "s0 = s\<lparr>receiver_state := STX_RECEIVED,
                                    receiving_message := Some r0\<rparr>"
            have hdr: "feed clk j [SOH, d, a, t, l, STX] s = Inr s0"
              unfolding s0_def r0_def using len by (intro feed_header [OF idle(1) dst]) simp_all
            have b: "l \<noteq> int (length ps) \<or> fold (\<lambda>p c. c XOR p) ps (d XOR a XOR l) \<noteq> ?c"
            proof (cases "l = int (length ps)")
              case True
              with bad soh stx dst have "d XOR a \<noteq> dst XOR src" by auto
              then have "d XOR a XOR l \<noteq> src XOR dst XOR int (length ps)"
                unfolding True by (rule xor_header_neq)
              then show ?thesis by (simp add: checksum_def fold_xor_inj)
            qed simp
            have "\<exists>s'. feed clk j ([SOH, d, a, t, l, STX] @ ?E @ ?T) s = Inr s'
                \<and> received_messages s' = received_messages s"
            proof (rule prefix_then_silent [OF hdr])
              show "received_messages s0 = received_messages s" by (simp add: s0_def)
              fix i
              show "\<exists>s'. feed clk i (?E @ ?T) s0 = Inr s'
                      \<and> received_messages s' = received_messages s0"
                by (rule body_silent [where ?r0.0 = r0, OF _ _ _ _ _ _ ps b])
                   (simp_all add: s0_def r0_def new_ReceivingMessage_def)
            qed
            then show ?thesis using soh stx by simp
          qed
        qed
      qed
    qed
  qed
qed

lemma invalid_body_byte_resets:
  assumes "receiver_state s = STX_RECEIVED" "receiving_message s = Some r"
    "\<not> is_valid_encoded_byte v" "Some (int (length (payload_buffer r))) \<noteq> length_rx r"
  shows "process_byte now v s = Inr (reset_receiver s)"
  using assms by (simp add: process_byte_def)

lemma valid_first_nibble:
  assumes "receiver_state s = STX_RECEIVED" "receiving_message s = Some r"
    "is_first_nibble r" "is_valid_encoded_byte v"
  shows "process_byte now v s =
           Inr (s\<lparr>receiving_message :=
                   Some (r\<lparr>incoming := v AND 240, is_first_nibble := False\<rparr>)\<rparr>)"
  using assms by (simp add: process_byte_def)

lemma encode_payload_append:
  "encode_payload (xs @ ys) = encode_payload xs @ encode_payload ys"
  by (simp add: encode_payload_def)

lemma nibble_join_hi: "((a AND 240) OR (b AND 15)) AND 240 = a AND (240 :: int)"
  unfolding m15 m240 by (rule bit_eqI) (auto simp add: bit_simps)

lemma nibble_join_lo: "((a AND 240) OR (b AND 15)) AND 15 = b AND (15 :: int)"
  unfolding m15 m240 by (rule bit_eqI) (auto simp add: bit_simps)

lemma nibble_join_is_byte: "is_byte ((a AND 240) OR (b AND 15))"
  unfolding is_byte_take_bit m15 m240 by (rule bit_eqI) (auto simp add: bit_simps)

text \<open>Two valid wire bytes are the encoding of the byte they decode to.\<close>

lemma valid_pair_is_encoding:
  assumes "is_valid_encoded_byte w1" "is_valid_encoded_byte w2"
  shows "enc_hi ((w1 AND 240) OR (w2 AND 15)) = w1" "enc_lo ((w1 AND 240) OR (w2 AND 15)) = w2"
proof -
  have "enc_hi ((w1 AND 240) OR (w2 AND 15)) = enc_hi w1"
    by (simp add: enc_hi_def nibble_join_hi)
  then show "enc_hi ((w1 AND 240) OR (w2 AND 15)) = w1"
    using assms(1) by (simp add: valid_enc_hi_self)
  have "enc_lo ((w1 AND 240) OR (w2 AND 15)) = enc_lo w2"
    by (simp add: enc_lo_def nibble_join_lo)
  then show "enc_lo ((w1 AND 240) OR (w2 AND 15)) = w2"
    using assms(2) by (simp add: valid_enc_lo_self)
qed

lemma fold_xor_middle:
  "fold (\<lambda>p c. c XOR p) (xs @ x # ys) (c :: int) = fold (\<lambda>p c. c XOR p) (xs @ y # ys) c
     \<longleftrightarrow> x = y"
proof -
  have "(a XOR x = a XOR y) \<longleftrightarrow> x = y" for a :: int
    by (metis xor.commute xor_right_cancel)
  then show ?thesis by (simp add: fold_xor_inj)
qed


lemma payload_variant_silent:
  assumes idle: "receiver_state s = IDLE" "receiving_message s = None"
    and dst: "dst = address s \<or> dst = BROADCAST_ADDRESS"
    and ps: "list_all is_byte (ps1 @ p # ps2)" "length (ps1 @ p # ps2) \<le> 255"
    and bad: "w1 \<noteq> enc_hi p \<or> w2 \<noteq> enc_lo p"
  shows "\<exists>s'. feed clk k ([LF, LF, LF] @ [SOH, dst, src, tid, int (length (ps1 @ p # ps2)), STX]
                        @ (encode_payload ps1 @ [w1, w2] @ encode_payload ps2)
                        @ [ETX, checksum src dst (ps1 @ p # ps2), EOT, LF, LF]) s = Inr s'
           \<and> received_messages s' = received_messages s"
proof -
  let ?ps = "ps1 @ p # ps2"
  let ?l = "int (length ?ps)"
  let ?c = "checksum src dst ?ps"
  let ?T = "[ETX, ?c, EOT, LF, LF]"
  let ?ini = "dst XOR src XOR ?l"
  have fill: "feed clk k [LF, LF, LF] s = Inr s"
    using idle(1) by (rule feed_fillers)
  have len: "0 < ?l" "?l \<le> 255" using ps(2) by simp_all
  have bytes: "list_all is_byte ps1" "is_byte p" "list_all is_byte ps2" using ps(1) by simp_all
  show ?thesis
  proof (rule prefix_then_silent [OF fill refl])
    fix j
    define r0 where "r0 = (new_ReceivingMessage (clk j))
                   \<lparr>dst_address := Some dst, src_address := Some src,
                    transaction_id := Some tid, length_rx := Some ?l, crc := Some ?ini\<rparr>"
    define s0 where "s0 = s\<lparr>receiver_state := STX_RECEIVED, receiving_message := Some r0\<rparr>"
    have hdr: "feed clk j [SOH, dst, src, tid, ?l, STX] s = Inr s0"
      unfolding s0_def r0_def by (rule feed_header [OF idle(1) dst len])
    have s0: "receiver_state s0 = STX_RECEIVED" "receiving_message s0 = Some r0"
      "received_messages s0 = received_messages s"
      by (simp_all add: s0_def)
    have r0: "is_first_nibble r0" "payload_buffer r0 = []" "crc r0 = Some ?ini"
      "length_rx r0 = Some ?l"
      by (simp_all add: r0_def new_ReceivingMessage_def)
    show "\<exists>s'. feed clk j ([SOH, dst, src, tid, ?l, STX]
                        @ (encode_payload ps1 @ [w1, w2] @ encode_payload ps2) @ ?T) s = Inr s'
            \<and> received_messages s' = received_messages s"
    proof (rule prefix_then_silent [OF hdr s0(3)])
      fix i
      show "\<exists>s'. feed clk i ((encode_payload ps1 @ [w1, w2] @ encode_payload ps2) @ ?T) s0 = Inr s'
              \<and> received_messages s' = received_messages s0"
      proof (cases "is_valid_encoded_byte w1 \<and> is_valid_encoded_byte w2")
        case True
        define q where "q = (w1 AND 240) OR (w2 AND 15)"
        have w: "enc_hi q = w1" "enc_lo q = w2"
          unfolding q_def using True by (simp_all add: valid_pair_is_encoding)
        with bad have "q \<noteq> p" by auto
        have enc: "encode_payload ps1 @ [w1, w2] @ encode_payload ps2 = encode_payload (ps1 @ q # ps2)"
          by (simp add: encode_payload_append encode_payload_Cons w)
        have qb: "list_all is_byte (ps1 @ q # ps2)"
          using bytes by (simp add: q_def nibble_join_is_byte)
        have c0: "?ini = src XOR dst XOR ?l" by (simp only: ac_simps)
        have "fold (\<lambda>p c. c XOR p) (ps1 @ q # ps2) ?ini \<noteq> ?c"
          unfolding c0 checksum_def using \<open>q \<noteq> p\<close>
          by (simp only: fold_xor_middle not_False_eq_True)
        then have b: "?l \<noteq> int (length (ps1 @ q # ps2))
             \<or> fold (\<lambda>p c. c XOR p) (ps1 @ q # ps2) ?ini \<noteq> ?c" by simp
        show ?thesis
          unfolding enc by (rule body_silent [OF s0(1,2) r0 qb b])
      next
        case False
        define r1 where "r1 = r0\<lparr>is_first_nibble := True, incoming := last (incoming r0 # ps1),
                           payload_buffer := payload_buffer r0 @ ps1,
                           crc := Some (fold (\<lambda>p c. c XOR p) ps1 ?ini)\<rparr>"
        define s1 where "s1 = s0\<lparr>receiving_message := Some r1\<rparr>"
        have body: "feed clk i (encode_payload ps1) s0 = Inr s1"
          unfolding s1_def r1_def by (rule feed_payload [OF s0(1,2) r0(1,3) bytes(1)])
        have s1: "receiver_state s1 = STX_RECEIVED" "receiving_message s1 = Some r1"
          "received_messages s1 = received_messages s0"
          by (simp_all add: s1_def s0)
        have cnt: "Some (int (length (payload_buffer r1))) \<noteq> length_rx r1"
          by (simp add: r1_def r0)
        have E2: "list_all is_valid_encoded_byte (encode_payload ps2)"
          by (rule encode_payload_valid)
        have "\<exists>s'. feed clk i (encode_payload ps1 @ ([w1, w2] @ encode_payload ps2 @ ?T)) s0 = Inr s'
              \<and> received_messages s' = received_messages s0"
        proof (rule prefix_then_silent [OF body s1(3)])
          fix n
          show "\<exists>s'. feed clk n ([w1, w2] @ encode_payload ps2 @ ?T) s1 = Inr s'
                  \<and> received_messages s' = received_messages s1"
          proof (cases "is_valid_encoded_byte w1")
            case w1: False
            have e: "feed clk n [w1] s1 = Inr (reset_receiver s1)"
              using invalid_body_byte_resets [OF s1(1,2) w1 cnt] by simp
            have "\<exists>s'. feed clk n ([w1] @ [w2] @ encode_payload ps2 @ ?T) s1 = Inr s'
                  \<and> received_messages s' = received_messages s1"
              by (rule prefix_then_silent [OF e])
                 (simp, rule after_reset_resync, simp_all add: E2)
            then show ?thesis by simp
          next
            case w1: True
            with False have w2: "\<not> is_valid_encoded_byte w2" by simp
            define r2 where "r2 = r1\<lparr>incoming := w1 AND 240, is_first_nibble := False\<rparr>"
            define s2 where "s2 = s1\<lparr>receiving_message := Some r2\<rparr>"
            have f1: "process_byte now w1 s1 = Inr s2" for now
              unfolding s2_def r2_def
              by (rule valid_first_nibble [OF s1(1,2) _ w1]) (simp add: r1_def)
            have cnt2: "Some (int (length (payload_buffer r2))) \<noteq> length_rx r2"
              using cnt by (simp add: r2_def)
            have f2: "process_byte now w2 s2 = Inr (reset_receiver s2)" for now
              by (rule invalid_body_byte_resets [OF _ _ w2 cnt2]) (simp_all add: s2_def s1)
            have e: "feed clk n [w1, w2] s1 = Inr (reset_receiver s2)"
              by (simp only: feed.simps f1 f2 sum.case)
            have m: "received_messages (reset_receiver s2) = received_messages s1"
              by (simp add: s2_def)
            have "\<exists>s'. feed clk n ([w1, w2] @ [] @ encode_payload ps2 @ ?T) s1 = Inr s'
                  \<and> received_messages s' = received_messages s1"
              by (rule prefix_then_silent [OF e m])
                 (rule after_reset_resync, simp_all add: E2)
            then show ?thesis by simp
          qed
        qed
        then show ?thesis by simp
      qed
    qed
  qed
qed

lemma length_encode_payload [simp]: "length (encode_payload ps) = 2 * length ps"
  by (induction ps) (simp_all add: encode_payload_def)

lemma encode_payload_Nil [simp]: "encode_payload [] = []"
  by (simp add: encode_payload_def)

lemma encode_payload_update:
  assumes "j < 2 * length ps"
  shows "\<exists>ps1 p ps2 w1 w2. ps = ps1 @ p # ps2
           \<and> (encode_payload ps)[j := v] = encode_payload ps1 @ [w1, w2] @ encode_payload ps2
           \<and> (v \<noteq> encode_payload ps ! j \<longrightarrow> w1 \<noteq> enc_hi p \<or> w2 \<noteq> enc_lo p)"
  using assms
proof (induction ps arbitrary: j)
  case Nil
  then show ?case by simp
next
  case (Cons p ps)
  consider "j = 0" | "j = 1" | "2 \<le> j" by linarith
  then show ?case
  proof cases
    case 1
    have "p # ps = [] @ p # ps
           \<and> (encode_payload (p # ps))[j := v] = encode_payload [] @ [v, enc_lo p] @ encode_payload ps
           \<and> (v \<noteq> encode_payload (p # ps) ! j \<longrightarrow> v \<noteq> enc_hi p \<or> enc_lo p \<noteq> enc_lo p)"
      using 1 by (simp add: encode_payload_Cons)
    then show ?thesis by blast
  next
    case 2
    have "p # ps = [] @ p # ps
           \<and> (encode_payload (p # ps))[j := v] = encode_payload [] @ [enc_hi p, v] @ encode_payload ps
           \<and> (v \<noteq> encode_payload (p # ps) ! j \<longrightarrow> enc_hi p \<noteq> enc_hi p \<or> v \<noteq> enc_lo p)"
      using 2 by (simp add: encode_payload_Cons)
    then show ?thesis by blast
  next
    case 3
    define j' where "j' = j - 2"
    with 3 have j: "j = Suc (Suc j')" by simp
    with Cons.prems have "j' < 2 * length ps" by simp
    from Cons.IH [OF this] obtain ps1 q ps2 w1 w2 where
      IH: "ps = ps1 @ q # ps2"
      "(encode_payload ps)[j' := v] = encode_payload ps1 @ [w1, w2] @ encode_payload ps2"
      "v \<noteq> encode_payload ps ! j' \<longrightarrow> w1 \<noteq> enc_hi q \<or> w2 \<noteq> enc_lo q"
      by blast
    have "p # ps = (p # ps1) @ q # ps2
           \<and> (encode_payload (p # ps))[j := v]
               = encode_payload (p # ps1) @ [w1, w2] @ encode_payload ps2
           \<and> (v \<noteq> encode_payload (p # ps) ! j \<longrightarrow> w1 \<noteq> enc_hi q \<or> w2 \<noteq> enc_lo q)"
      using IH j by (simp add: encode_payload_Cons)
    then show ?thesis by blast
  qed
qed


lemma xor_left_cancel: "(x XOR c = x XOR c') \<longleftrightarrow> c = c'" for x :: int
  by (simp only: xor.commute [of x] xor_right_cancel)

text \<open>
  C2, amended: take a frame of the wire layout with a payload of 1 to 255 bytes, fed to a
  receiver that is idle, and change one byte of it to any other value.  If the byte is the
  start marker, the destination, the source, the length or the body marker (indices 3, 4,
  5, 7, 8), no message is appended to the inbound queue, whoever the frame is addressed
  to.  If the byte is one of the encoded payload bytes (indices 9 to \<open>8 + 2 * length ps\<close>)
  and the frame is addressed to the receiving node or to broadcast, no message is appended
  either.  The transaction id (index 6) is not covered.
\<close>

theorem corruption_detected:
  assumes idle: "receiver_state s = IDLE" "receiving_message s = None"
    and ps: "ps \<noteq> []" "length ps \<le> 255" "list_all is_byte ps"
    and v: "v \<noteq> wire_frame src dst tid ps ! i"
    and pos: "i \<in> {3, 4, 5, 7, 8}
              \<or> (9 \<le> i \<and> i < 9 + 2 * length ps \<and> (dst = address s \<or> dst = BROADCAST_ADDRESS))"
  shows "\<exists>s'. feed clk k ((wire_frame src dst tid ps)[i := v]) s = Inr s'
           \<and> received_messages s' = received_messages s"
proof -
  let ?E = "encode_payload ps"
  let ?c = "checksum src dst ps"
  let ?l = "int (length ps)"
  let ?T = "[ETX, ?c, EOT, LF, LF]"
  from pos consider (soh) "i = 3" | (dst) "i = 4" | (src) "i = 5" | (len) "i = 7" | (stx) "i = 8"
    | (body) "9 \<le> i" "i < 9 + 2 * length ps" "dst = address s \<or> dst = BROADCAST_ADDRESS"
    by auto
  then show ?thesis
  proof cases
    case soh
    with v have n: "v \<noteq> SOH" by (simp add: wire_frame_def)
    have upd: "(wire_frame src dst tid ps)[i := v]
                 = [LF, LF, LF] @ [v, dst, src, tid, ?l, STX] @ ?E @ ?T"
      using soh by (simp add: wire_frame_def eval_nat_numeral)
    show ?thesis
      unfolding upd by (rule header_variant_silent [OF idle ps(3)]) (simp add: n)
  next
    case dst
    with v have n: "v \<noteq> dst" by (simp add: wire_frame_def)
    have upd: "(wire_frame src dst tid ps)[i := v]
                 = [LF, LF, LF] @ [SOH, v, src, tid, ?l, STX] @ ?E @ ?T"
      using dst by (simp add: wire_frame_def eval_nat_numeral)
    show ?thesis
      unfolding upd
      by (rule header_variant_silent [OF idle ps(3)]) (simp add: n xor_right_cancel)
  next
    case src
    with v have n: "v \<noteq> src" by (simp add: wire_frame_def)
    have upd: "(wire_frame src dst tid ps)[i := v]
                 = [LF, LF, LF] @ [SOH, dst, v, tid, ?l, STX] @ ?E @ ?T"
      using src by (simp add: wire_frame_def eval_nat_numeral)
    show ?thesis
      unfolding upd
      by (rule header_variant_silent [OF idle ps(3)]) (simp add: n xor_left_cancel)
  next
    case len
    with v have n: "v \<noteq> ?l" by (simp add: wire_frame_def)
    have upd: "(wire_frame src dst tid ps)[i := v]
                 = [LF, LF, LF] @ [SOH, dst, src, tid, v, STX] @ ?E @ ?T"
      using len by (simp add: wire_frame_def eval_nat_numeral)
    show ?thesis
      unfolding upd by (rule header_variant_silent [OF idle ps(3)]) (simp add: n)
  next
    case stx
    with v have n: "v \<noteq> STX" by (simp add: wire_frame_def)
    have upd: "(wire_frame src dst tid ps)[i := v]
                 = [LF, LF, LF] @ [SOH, dst, src, tid, ?l, v] @ ?E @ ?T"
      using stx by (simp add: wire_frame_def eval_nat_numeral)
    show ?thesis
      unfolding upd by (rule header_variant_silent [OF idle ps(3)]) (simp add: n)
  next
    case body
    define j where "j = i - 9"
    with body have j: "i = 9 + j" "j < 2 * length ps" by simp_all
    have fr: "wire_frame src dst tid ps
                = [LF, LF, LF, SOH, dst, src, tid, ?l, STX] @ ?E @ ?T"
      by (simp add: wire_frame_def)
    have nth: "wire_frame src dst tid ps ! i = ?E ! j"
      unfolding fr j(1) using j(2) by (simp add: nth_append)
    have upd: "(wire_frame src dst tid ps)[i := v]
                 = [LF, LF, LF, SOH, dst, src, tid, ?l, STX] @ ?E[j := v] @ ?T"
      unfolding fr j(1) using j(2) by (simp add: list_update_append)
    from encode_payload_update [OF j(2), of v] v nth
    obtain ps1 p ps2 w1 w2 where d: "ps = ps1 @ p # ps2"
      "?E[j := v] = encode_payload ps1 @ [w1, w2] @ encode_payload ps2"
      "w1 \<noteq> enc_hi p \<or> w2 \<noteq> enc_lo p"
      by auto
    have "\<exists>s'. feed clk k ([LF, LF, LF] @ [SOH, dst, src, tid, int (length (ps1 @ p # ps2)), STX]
                        @ (encode_payload ps1 @ [w1, w2] @ encode_payload ps2)
                        @ [ETX, checksum src dst (ps1 @ p # ps2), EOT, LF, LF]) s = Inr s'
           \<and> received_messages s' = received_messages s"
      using ps(2,3) unfolding d(1)
      by (intro payload_variant_silent [OF idle body(3) _ _ d(3)])
    then show ?thesis
      unfolding upd d(2) unfolding d(1) by simp
  qed
qed


theorem corruption_detected_witness:
  "(9 :: int) \<noteq> wire_frame 0 5 7 [65] ! 4 \<and> (2 :: int) \<noteq> wire_frame 0 5 7 [65] ! 10
   \<and> (\<exists>s'. feed (\<lambda>k. 0) 0 ((wire_frame 0 5 7 [65])[4 := 9]) node5 = Inr s'
          \<and> received_messages s' = [])
   \<and> (\<exists>s'. feed (\<lambda>k. 0) 0 ((wire_frame 0 5 7 [65])[10 := 2]) node5 = Inr s'
          \<and> received_messages s' = [])"
proof -
  have idle: "receiver_state node5 = IDLE" "receiving_message node5 = None"
    and m: "received_messages node5 = []" and a: "address node5 = 5"
    by (simp_all add: node5_def)
  have ps: "[65 :: int] \<noteq> []" "length [65 :: int] \<le> 255" "list_all is_byte [65]"
    by (simp_all add: is_byte_def)
  have v4: "(9 :: int) \<noteq> wire_frame 0 5 7 [65] ! 4"
    by (simp add: wire_frame_def)
  have v10: "(2 :: int) \<noteq> wire_frame 0 5 7 [65] ! 10"
    by (simp add: wire_frame_def encode_payload_def enc_hi_def enc_lo_def ETX_def)
  have p4: "(4 :: nat) \<in> {3, 4, 5, 7, 8}
              \<or> (9 \<le> (4 :: nat) \<and> 4 < 9 + 2 * length [65 :: int]
                  \<and> ((5 :: int) = address node5 \<or> (5 :: int) = BROADCAST_ADDRESS))"
    by simp
  have p10: "(10 :: nat) \<in> {3, 4, 5, 7, 8}
              \<or> (9 \<le> (10 :: nat) \<and> 10 < 9 + 2 * length [65 :: int]
                  \<and> ((5 :: int) = address node5 \<or> (5 :: int) = BROADCAST_ADDRESS))"
    by (simp add: a)
  from corruption_detected [OF idle ps v4 p4, of "\<lambda>k. 0" 0]
    corruption_detected [OF idle ps v10 p10, of "\<lambda>k. 0" 0] v4 v10
  show ?thesis unfolding m by blast
qed

end
